theory Spec2Isabelle
  imports Complex_Main "HOL-Library.AList"
begin

section \<open>Geometry utilities (calculation utilities, second part of utils/dom.js)\<close>

text \<open>
  JavaScript numbers are modelled as reals (finite values only). The remainder operator
  \<open>x % y\<close> truncates the quotient towards zero, so its result has the sign of the
  dividend. The only divisor the program uses is \<open>2 * Math.PI\<close>.
\<close>

definition js_trunc :: "real \<Rightarrow> int" where
  "js_trunc x = (if 0 \<le> x then \<lfloor>x\<rfloor> else \<lceil>x\<rceil>)"

definition js_rem :: "real \<Rightarrow> real \<Rightarrow> real" where
  "js_rem x y = x - y * of_int (js_trunc (x / y))"

text \<open>
  \<open>calculateAverageAngle(angles)\<close>: \<open>Math.min(...angles)\<close> and \<open>Math.max(...angles)\<close>
  fold over the arguments. With no argument they are \<open>Infinity\<close> and \<open>-Infinity\<close>, the
  comparison fails and the result is \<open>NaN\<close>: that is the value \<open>None\<close> here.
\<close>

definition calculateAverageAngle :: "real list \<Rightarrow> real option" where
  "calculateAverageAngle angles =
     (case angles of
        [] \<Rightarrow> None
      | a # as \<Rightarrow>
          (let minAngle = fold min as a;
               maxAngle = fold max as a
           in if maxAngle - minAngle > pi
              then Some (js_rem ((minAngle + maxAngle + 2 * pi) / 2) (2 * pi))
              else Some ((minAngle + maxAngle) / 2)))"

section \<open>Hierarchy (d3.hierarchy) and radial layout\<close>

text \<open>
  \<open>d3.hierarchy(data)\<close> builds one node object per item of the nested data. A node
  object is identified here by its position: the list of child indices leading to it from
  the root. \<open>node.depth\<close> is the number of its ancestors and \<open>node.parent\<close> is the node
  one step up (\<open>null\<close> for the root), as d3 sets them. \<open>node.children\<close> is \<open>undefined\<close>
  for a leaf: the empty list here.
\<close>

datatype 'a hnode = HNode (data: 'a) (children: "'a hnode list")

type_synonym node = "nat list"

definition depth :: "node \<Rightarrow> nat" where
  "depth n = length n"

definition parent :: "node \<Rightarrow> node option" where
  "parent n = (if n = [] then None else Some (butlast n))"

fun kids_at :: "node \<times> 'a hnode \<Rightarrow> (node \<times> 'a hnode) list" where
  "kids_at (p, n) = map (\<lambda>i. (p @ [i], children n ! i)) [0..<length (children n)]"

text \<open>
  \<open>node.descendants()\<close> of d3 visits the nodes in breadth-first order: the root, then
  one generation after the other, each generation in the order of its parents.
\<close>

function each_level :: "(node \<times> 'a hnode) list \<Rightarrow> (node \<times> 'a hnode) list" where
  "each_level cur =
     (if cur = [] then [] else cur @ each_level (concat (map kids_at cur)))"
  by pat_completeness auto
termination
proof (relation "measure (\<lambda>cur. sum_list (map (\<lambda>pn. size (snd pn)) cur))")
  show "wf (measure (\<lambda>cur. sum_list (map (\<lambda>pn. size (snd pn)) cur)))" by simp
next
  fix cur :: "(node \<times> 'a hnode) list"
  assume ne: "cur \<noteq> []"
  have one: "sum_list (map (\<lambda>pn. size (snd pn)) (kids_at pn)) < size (snd pn)"
    for pn :: "node \<times> 'a hnode"
  proof -
    obtain p n where pn: "pn = (p, n)" by (cases pn)
    obtain d cs where n: "n = HNode d cs" by (cases n)
    have "map (\<lambda>pn. size (snd pn)) (kids_at (p, n)) = map size (map (nth cs) [0..<length cs])"
      unfolding n by (simp add: comp_def)
    then have "map (\<lambda>pn. size (snd pn)) (kids_at pn) = map size cs"
      unfolding pn by (simp only: map_nth)
    moreover have "sum_list (map size cs) \<le> size_list size cs"
      by (induction cs) auto
    ultimately show ?thesis unfolding pn n by simp
  qed
  have all: "xs \<noteq> [] \<Longrightarrow>
      sum_list (map (\<lambda>pn. size (snd pn)) (concat (map kids_at xs)))
        < sum_list (map (\<lambda>pn. size (snd pn)) xs)"
    for xs :: "(node \<times> 'a hnode) list"
  proof (induction xs)
    case Nil
    then show ?case by simp
  next
    case (Cons x xs)
    show ?case
    proof (cases "xs = []")
      case True
      then show ?thesis using one [of x] by simp
    next
      case False
      then show ?thesis using Cons.IH one [of x] by simp
    qed
  qed
  show "(concat (map kids_at cur), cur)
          \<in> measure (\<lambda>cur. sum_list (map (\<lambda>pn. size (snd pn)) cur))"
    using all [OF ne] by simp
qed

declare each_level.simps [simp del]

definition descendants :: "'a hnode \<Rightarrow> (node \<times> 'a hnode) list" where
  "descendants rt = each_level [([], rt)]"

text \<open>
  The angle \<open>node.x\<close> is a mutable field of the node objects: a store from nodes to
  numbers. \<open>processDepthNodes\<close> starts from the angles that \<open>d3.tree\<close> has assigned.
\<close>

type_synonym angles = "node \<Rightarrow> real"

definition depthTwoNodes :: "'a hnode \<Rightarrow> (node \<times> 'a hnode) list" where
  "depthTwoNodes rt = filter (\<lambda>d. depth (fst d) = 2) (descendants rt)"

definition depthOneNodes :: "'a hnode \<Rightarrow> (node \<times> 'a hnode) list" where
  "depthOneNodes rt = kids_at ([], rt)"

definition place_outer :: "real \<Rightarrow> nat \<times> node \<times> 'a hnode \<Rightarrow> angles \<Rightarrow> angles" where
  "place_outer angleStep ind x = (case ind of (i, p, n) \<Rightarrow> x(p := real i * angleStep))"

text \<open>
  The inner-circle step calls \<open>calculateAverageAngle\<close> only under the guard
  \<open>node.children.length > 0\<close>, where its result is a number.
\<close>

definition place_inner :: "node \<times> 'a hnode \<Rightarrow> angles \<Rightarrow> angles" where
  "place_inner pn x =
     (if children (snd pn) \<noteq> []
      then (let childAngles = map (\<lambda>child. x (fst child)) (kids_at pn)
            in case calculateAverageAngle childAngles of
                 Some avgAngle \<Rightarrow> x(fst pn := avgAngle)
               | None \<Rightarrow> x)
      else x)"

definition processDepthNodes :: "'a hnode \<Rightarrow> angles \<Rightarrow> angles" where
  "processDepthNodes rt x =
     (let x1 = (if length (depthTwoNodes rt) > 0
                then (let angleStep = (2 * pi) / real (length (depthTwoNodes rt))
                      in fold (place_outer angleStep) (enumerate 0 (depthTwoNodes rt)) x)
                else x)
      in fold place_inner (depthOneNodes rt) x1)"

text \<open>One generation step of the traversal.\<close>

definition nxt :: "(node \<times> 'a hnode) list \<Rightarrow> (node \<times> 'a hnode) list" where
  "nxt cur = concat (map kids_at cur)"

text \<open>
  The hierarchy of the layout scenario: a root with two primary items, the first with
  three secondary items and the second with one.
\<close>

definition scenario :: "string hnode" where
  "scenario = HNode ''root''
     [HNode ''A'' [HNode ''a1'' [], HNode ''a2'' [], HNode ''a3'' []],
      HNode ''B'' [HNode ''b1'' []]]"

section \<open>Selection classification (visualization/NodeManager.js, visualization/PathManager.js)\<close>

text \<open>
  \<open>isActiveNode(node, selectedNode)\<close>; \<open>selectedNode\<close> may be \<open>null\<close>. The JavaScript
  result is used for its truthiness only (\<open>classed('active', ...)\<close>).
\<close>

definition isActiveNode :: "node \<Rightarrow> node option \<Rightarrow> bool" where
  "isActiveNode n selectedNode =
     (case selectedNode of
        None \<Rightarrow> depth n = 0
      | Some s \<Rightarrow>
          n = s \<or> (parent s \<noteq> None \<and> Some n = parent s) \<or> (depth n = 0 \<and> True))"

text \<open>
  A link object of \<open>root.links()\<close> is a pair \<open>{source, target}\<close>: d3 yields one link per
  node other than the root, from the node's parent to the node.
\<close>

type_synonym link = "node \<times> node"

definition links :: "'a hnode \<Rightarrow> link list" where
  "links rt =
     concat (map (\<lambda>d. case parent (fst d) of None \<Rightarrow> [] | Some p \<Rightarrow> [(p, fst d)])
                 (descendants rt))"

definition isActivePath :: "link option \<Rightarrow> node option \<Rightarrow> bool" where
  "isActivePath lnk selectedNode =
     (case (lnk, selectedNode) of
        (Some (source, target), Some s) \<Rightarrow>
          if depth s = 0 then True
          else if depth s = 1
          then (parent s \<noteq> None \<and> Some source = parent s \<and> target = s) \<or> source = s
          else if depth s = 2
          then target = s
             \<or> (parent s \<noteq> None \<and> Some source = parent s)
             \<or> (Option.bind (parent s) parent \<noteq> None
                \<and> Some source = Option.bind (parent s) parent
                \<and> Some target = parent s)
          else False
      | _ \<Rightarrow> False)"

section \<open>Selection state (StateManager in src/unnamed/part_001, core/CircularNavManager.js)\<close>

text \<open>
  The state object held in \<open>StateManager.state\<close>, with the fields the selection logic
  reads and writes.
\<close>

record nav_state =
  isInitialized :: bool
  isDestroying :: bool
  isTransitioning :: bool
  isUpdating :: bool
  isError :: bool
  selectedNode :: "node option"
  previousNode :: "node option"

text \<open>
  A \<open>StateManager\<close> object has the own properties \<open>parent\<close>, \<open>listeners\<close> and \<open>state\<close>
  and the methods of its class. Reading a property of the object yields the own property,
  else the method of that name, else \<open>undefined\<close>; a condition takes the truthiness of
  what was read.
\<close>

record state_manager =
  state :: nav_state

datatype js_value = JUndefined | JObject | JFunction string

fun truthy :: "js_value \<Rightarrow> bool" where
  "truthy JUndefined = False"
| "truthy JObject = True"
| "truthy (JFunction f) = True"

definition StateManager_methods :: "string list" where
  "StateManager_methods =
     [''initialize'', ''fetchInitialData'', ''updateState'', ''handleStateChange'',
      ''handleSelectionChange'', ''on'', ''off'', ''emit'', ''destroy'', ''startUpdate'',
      ''endUpdate'', ''getSelectedNode'', ''getPreviousNode'', ''getData'',
      ''isTransitioning'']"

definition property_of :: "state_manager \<Rightarrow> string \<Rightarrow> js_value" where
  "property_of sm name =
     (if name \<in> set [''parent'', ''listeners'', ''state''] then JObject
      else if name \<in> set StateManager_methods then JFunction name
      else JUndefined)"

text \<open>The method \<open>isTransitioning()\<close> itself, when it is called.\<close>

definition isTransitioning_call :: "state_manager \<Rightarrow> bool" where
  "isTransitioning_call sm = isTransitioning (state sm)"

text \<open>
  \<open>updateState(newState)\<close> up to its first suspension: the new fields are merged into
  the state object; when the selection changed, \<open>handleStateChange\<close> records the previous
  selection (if there was one) and enters \<open>handleSelectionChange\<close>, whose first statement
  is \<open>updateState({ isTransitioning: true })\<close>. The patch is the list of the fields that
  the argument object carries.
\<close>

datatype field_update = SelectedNode "node option" | IsTransitioning bool | IsError bool
                      | IsUpdating bool | IsInitialized bool | IsDestroying bool

fun merge_field :: "field_update \<Rightarrow> nav_state \<Rightarrow> nav_state" where
  "merge_field (SelectedNode n) s = s\<lparr>selectedNode := n\<rparr>"
| "merge_field (IsTransitioning b) s = s\<lparr>isTransitioning := b\<rparr>"
| "merge_field (IsError b) s = s\<lparr>isError := b\<rparr>"
| "merge_field (IsUpdating b) s = s\<lparr>isUpdating := b\<rparr>"
| "merge_field (IsInitialized b) s = s\<lparr>isInitialized := b\<rparr>"
| "merge_field (IsDestroying b) s = s\<lparr>isDestroying := b\<rparr>"

definition updateState :: "field_update list \<Rightarrow> state_manager \<Rightarrow> state_manager" where
  "updateState newState sm =
     (let oldState = state sm;
          merged = fold merge_field newState oldState
      in if selectedNode merged \<noteq> selectedNode oldState
         then (let recorded = (if selectedNode oldState \<noteq> None
                               then merged\<lparr>previousNode := selectedNode oldState\<rparr>
                               else merged)
               in sm\<lparr>state := recorded\<lparr>isTransitioning := True\<rparr>\<rparr>)
         else sm\<lparr>state := merged\<rparr>)"

text \<open>
  \<open>handleNodeClick(event)\<close> of the controller, on the node carried by the event
  (\<open>null\<close> is \<open>None\<close>). Its guard reads the property \<open>this.state.isTransitioning\<close> of
  the \<open>StateManager\<close> object; it does not call it.
\<close>

definition handleNodeClick :: "node option \<Rightarrow> state_manager \<Rightarrow> state_manager" where
  "handleNodeClick nd sm =
     (if nd = None \<or> truthy (property_of sm ''isTransitioning'') then sm
      else updateState [SelectedNode nd, IsTransitioning True] sm)"

definition idle_manager :: state_manager where
  "idle_manager = \<lparr>state = \<lparr>isInitialized = True, isDestroying = False,
     isTransitioning = False, isUpdating = False, isError = False,
     selectedNode = None, previousNode = None\<rparr>\<rparr>"

section \<open>Responsive dimensions (DisplayManager in src/unnamed/part_001)\<close>

text \<open>
  The container rectangle and the window size are inputs of every computation. Of the
  dimension object the fields \<open>width\<close>, \<open>height\<close> and \<open>radius\<close> are modelled; the text,
  node and indicator sizes are further fields computed from the same inputs, which the
  change test does not read.
\<close>

record viewport =
  rect_width :: real
  rect_height :: real
  innerWidth :: real
  innerHeight :: real

record display_config =
  min_width :: real
  min_height :: real
  central_minSize :: real
  breakpoint_small :: real
  breakpoint_medium :: real

datatype profile = Mobile | Tablet | Desktop

record dimensions =
  width :: real
  height :: real
  radius :: real

record display_manager =
  currentProfile :: "profile option"
  lastDimensions :: "dimensions option"

definition getActiveProfile :: "display_config \<Rightarrow> viewport \<Rightarrow> profile" where
  "getActiveProfile cfg vp =
     (if innerWidth vp < breakpoint_small cfg then Mobile
      else if innerWidth vp < breakpoint_medium cfg then Tablet
      else Desktop)"

definition calculateWidth :: "display_config \<Rightarrow> viewport \<Rightarrow> real" where
  "calculateWidth cfg vp =
     (let containerWidth = max (rect_width vp) (min_width cfg);
          maxWidth = innerWidth vp * (9 / 10)
      in min containerWidth maxWidth)"

definition calculateHeight :: "display_config \<Rightarrow> viewport \<Rightarrow> real" where
  "calculateHeight cfg vp =
     (let containerHeight = max (rect_height vp) (min_height cfg);
          maxHeight = innerHeight vp * (7 / 10)
      in min containerHeight maxHeight)"

definition calculateRadius :: "display_config \<Rightarrow> viewport \<Rightarrow> real" where
  "calculateRadius cfg vp =
     (let minDimension = min (rect_width vp) (rect_height vp);
          baseRadius = minDimension * (35 / 100)
      in max (central_minSize cfg * (3 / 2)) (min baseRadius (rect_width vp * (4 / 10))))"

text \<open>
  \<open>calculateDimensions()\<close> returns the new dimension object and stores that same object
  in \<open>this.lastDimensions\<close> before it returns.
\<close>

definition calculateDimensions ::
  "display_config \<Rightarrow> viewport \<Rightarrow> display_manager \<Rightarrow> dimensions \<times> display_manager" where
  "calculateDimensions cfg vp dm =
     (let dims = \<lparr>width = calculateWidth cfg vp, height = calculateHeight cfg vp,
                   radius = calculateRadius cfg vp\<rparr>
      in (dims, dm\<lparr>lastDimensions := Some dims\<rparr>))"

definition hasSignificantChanges :: "dimensions \<Rightarrow> display_manager \<Rightarrow> bool" where
  "hasSignificantChanges newDims dm =
     (case lastDimensions dm of
        None \<Rightarrow> True
      | Some lastDims \<Rightarrow>
          (let threshold = 1 / 100
           in \<bar>width newDims - width lastDims\<bar> > width lastDims * threshold
            \<or> \<bar>height newDims - height lastDims\<bar> > height lastDims * threshold))"

text \<open>
  \<open>handleResize()\<close>: the first component of the result tells whether
  \<open>this.parent.viz.update(null, newDimensions)\<close> was called.
\<close>

definition handleResize ::
  "display_config \<Rightarrow> viewport \<Rightarrow> display_manager \<Rightarrow> bool \<times> display_manager" where
  "handleResize cfg vp dm =
     (let newProfile = getActiveProfile cfg vp;
          (newDimensions, dm1) = calculateDimensions cfg vp dm
      in if hasSignificantChanges newDimensions dm1
         then (True, dm1\<lparr>currentProfile := Some newProfile\<rparr>)
         else (False, dm1))"

text \<open>
  \<open>handleResize()\<close> of the controller, registered for the same window event: its guard
  reads the property \<open>this.state.isDestroying\<close> of the \<open>StateManager\<close> object, and it
  calls \<open>this.viz.update(null, dimensions)\<close> without any test of the change.
\<close>

definition CircularNavManager_handleResize ::
  "display_config \<Rightarrow> viewport \<Rightarrow> state_manager \<Rightarrow> display_manager
     \<Rightarrow> bool \<times> display_manager" where
  "CircularNavManager_handleResize cfg vp sm dm =
     (if truthy (property_of sm ''isDestroying'') then (False, dm)
      else (let (dims, dm1) = calculateDimensions cfg vp dm in (True, dm1)))"

definition default_display :: display_config where
  "default_display = \<lparr>min_width = 800, min_height = 600, central_minSize = 60,
     breakpoint_small = 768, breakpoint_medium = 1024\<rparr>"

text \<open>
  The manager as the constructor leaves it, and a container 1000 and 1050 pixels wide in a
  window of 1400 by 1000 pixels.
\<close>

definition setup_display :: display_manager where
  "setup_display = \<lparr>currentProfile = None, lastDimensions = None\<rparr>"

definition viewport_1000 :: viewport where
  "viewport_1000 = \<lparr>rect_width = 1000, rect_height = 1000, innerWidth = 1400, innerHeight = 1000\<rparr>"

definition viewport_1050 :: viewport where
  "viewport_1050 = \<lparr>rect_width = 1050, rect_height = 1000, innerWidth = 1400, innerHeight = 1000\<rparr>"

section \<open>Content cache (CacheManager in src/unnamed/part_001)\<close>

text \<open>
  The cache is a JavaScript \<open>Map\<close>, which keeps its keys in insertion order: an
  association list, where \<open>Map.set\<close> on a present key replaces the value in place and on
  a new key appends (\<open>AList.update\<close>), and \<open>Map.delete\<close> removes the key
  (\<open>AList.delete\<close>). The preload queue is a \<open>Set\<close>, a list without repetition. Time
  stamps are the milliseconds of \<open>Date.now()\<close>; one synchronous call reads one time.
  \<open>estimateSize\<close> is the byte length of the JSON text of the content, a parameter here.
\<close>

type_synonym content_id = string

type_synonym promise = nat

record 'c entry =
  content :: 'c
  added :: int
  lastAccessed :: int
  size_bytes :: nat

record 'c cache_config =
  maxSize :: nat
  preloadDelay :: nat
  batchSize :: nat
  estimateSize :: "'c \<Rightarrow> nat"

record 'c cache_manager =
  cache :: "(content_id \<times> 'c entry) list"
  preloadQueue :: "content_id list"
  hits :: nat
  misses :: nat
  stats_size :: nat
  lastCleanup :: int
  isLoading :: bool
  loadingPromises :: "(content_id \<times> promise) list"

definition shouldCleanup :: "'c cache_config \<Rightarrow> int \<Rightarrow> 'c cache_manager \<Rightarrow> bool" where
  "shouldCleanup cfg now m =
     (let timeSinceCleanup = now - lastCleanup m
      in length (cache m) > maxSize cfg \<or> timeSinceCleanup > 300000)"

text \<open>
  \<open>cleanup()\<close>: \<open>Array.prototype.sort\<close> is stable, as \<open>sort_key\<close> is; the comparator
  orders by \<open>lastAccessed\<close>.
\<close>

definition cleanup :: "'c cache_config \<Rightarrow> int \<Rightarrow> 'c cache_manager \<Rightarrow> 'c cache_manager" where
  "cleanup cfg now m =
     (if length (cache m) \<le> maxSize cfg then m
      else (let entries = sort_key (\<lambda>e. lastAccessed (snd e)) (cache m);
                removeCount = length (cache m) - maxSize cfg;
                cache' = fold (\<lambda>e c. AList.delete (fst e) c) (take removeCount entries) (cache m)
            in m\<lparr>cache := cache', stats_size := length cache', lastCleanup := now\<rparr>))"

text \<open>\<open>set(id, content)\<close>.\<close>

definition set_cache ::
  "'c cache_config \<Rightarrow> int \<Rightarrow> content_id \<Rightarrow> 'c \<Rightarrow> 'c cache_manager \<Rightarrow> 'c cache_manager" where
  "set_cache cfg now cid c m =
     (let m1 = m\<lparr>cache := AList.update cid
                   \<lparr>content = c, added = now, lastAccessed = now,
                      size_bytes = estimateSize cfg c\<rparr> (cache m)\<rparr>;
          m2 = m1\<lparr>stats_size := length (cache m1)\<rparr>
      in if shouldCleanup cfg now m2 then cleanup cfg now m2 else m2)"

text \<open>A sequence of \<open>set\<close> calls, each with its time, identifier and payload.\<close>

definition set_all ::
  "'c cache_config \<Rightarrow> (int \<times> content_id \<times> 'c) list \<Rightarrow> 'c cache_manager \<Rightarrow> 'c cache_manager" where
  "set_all cfg calls m = fold (\<lambda>call. case call of (now, cid, c) \<Rightarrow> set_cache cfg now cid c) calls m"

text \<open>The manager as the constructor leaves it, at time \<open>now\<close>.\<close>

definition new_manager :: "int \<Rightarrow> 'c cache_manager" where
  "new_manager now = \<lparr>cache = [], preloadQueue = [], hits = 0, misses = 0, stats_size = 0,
     lastCleanup = now, isLoading = False, loadingPromises = []\<rparr>"

subsection \<open>Asynchronous operations\<close>

text \<open>
  All code runs on one thread; an \<open>async\<close> method runs until its first \<open>await\<close> and is
  resumed when the awaited promise settles. Each such piece is a function on the world:
  the manager, the content fetches in flight (number of the request, which method issued
  it, identifier fetched), the count of \<open>fetchContent\<close> calls made so far, and the local
  variable \<open>batch\<close> of the running \<open>processPreloadQueue\<close> (empty when none runs). The
  promise of a fetch is named by the number of its request.
\<close>

datatype origin = ByGet | ByPreload

record 'c world =
  mgr :: "'c cache_manager"
  requests :: "(promise \<times> origin \<times> content_id) list"
  issued :: nat
  batch :: "content_id list"

definition fetchContent :: "origin \<Rightarrow> content_id \<Rightarrow> 'c world \<Rightarrow> promise \<times> 'c world" where
  "fetchContent who cid w =
     (issued w, w\<lparr>requests := requests w @ [(issued w, who, cid)], issued := Suc (issued w)\<rparr>)"

text \<open>
  What \<open>get(id)\<close> hands to its caller: the cached content, or the result of the fetch
  behind the named promise.
\<close>

datatype 'c answer = Cached 'c | InFlight promise

definition get :: "int \<Rightarrow> content_id \<Rightarrow> 'c world \<Rightarrow> 'c answer \<times> 'c world" where
  "get now cid w =
     (case map_of (loadingPromises (mgr w)) cid of
        Some p \<Rightarrow> (InFlight p, w)
      | None \<Rightarrow>
          (case map_of (cache (mgr w)) cid of
             Some cached \<Rightarrow>
               (Cached (content cached),
                w\<lparr>mgr := (mgr w)\<lparr>hits := hits (mgr w) + 1,
                     cache := AList.update cid (cached\<lparr>lastAccessed := now\<rparr>) (cache (mgr w))\<rparr>\<rparr>)
           | None \<Rightarrow>
               (let w1 = w\<lparr>mgr := (mgr w)\<lparr>misses := misses (mgr w) + 1\<rparr>\<rparr>;
                    (p, w2) = fetchContent ByGet cid w1
                in (InFlight p,
                    w2\<lparr>mgr := (mgr w2)\<lparr>loadingPromises :=
                          AList.update cid p (loadingPromises (mgr w2))\<rparr>\<rparr>))))"

text \<open>
  The rest of \<open>get(id)\<close>, run when its fetch \<open>p\<close> has settled with content
  (\<open>Some\<close>) or has failed (\<open>None\<close>).
\<close>

definition get_resume ::
  "'c cache_config \<Rightarrow> int \<Rightarrow> promise \<Rightarrow> content_id \<Rightarrow> 'c option \<Rightarrow> 'c world \<Rightarrow> 'c world" where
  "get_resume cfg now p cid result w =
     (let m1 = (case result of Some c \<Rightarrow> set_cache cfg now cid c (mgr w) | None \<Rightarrow> mgr w);
          m2 = m1\<lparr>loadingPromises := AList.delete cid (loadingPromises m1)\<rparr>
      in w\<lparr>mgr := m2, requests := filter (\<lambda>r. fst r \<noteq> p) (requests w)\<rparr>)"

definition getBatch :: "'c cache_config \<Rightarrow> 'c cache_manager \<Rightarrow> content_id list" where
  "getBatch cfg m = take (batchSize cfg) (preloadQueue m)"

text \<open>One pass of the \<open>while\<close> body up to \<open>await Promise.all\<close>: a fetch per member.\<close>

definition start_round :: "content_id list \<Rightarrow> 'c world \<Rightarrow> 'c world" where
  "start_round b w = fold (\<lambda>cid w'. snd (fetchContent ByPreload cid w')) b w"

text \<open>\<open>processPreloadQueue()\<close> up to its first \<open>await\<close>.\<close>

definition processPreloadQueue_begin :: "'c cache_config \<Rightarrow> 'c world \<Rightarrow> 'c world" where
  "processPreloadQueue_begin cfg w =
     (if isLoading (mgr w) \<or> preloadQueue (mgr w) = [] then w
      else (let w1 = w\<lparr>mgr := (mgr w)\<lparr>isLoading := True\<rparr>\<rparr>;
                b = getBatch cfg (mgr w1)
            in if b \<noteq> [] then start_round b (w1\<lparr>batch := b\<rparr>)
               else w1\<lparr>mgr := (mgr w1)\<lparr>isLoading := False\<rparr>\<rparr>))"

definition preloadContent :: "'c cache_config \<Rightarrow> content_id list \<Rightarrow> 'c world \<Rightarrow> 'c world" where
  "preloadContent cfg idArray w =
     (let q = fold (\<lambda>cid q. if map_of (cache (mgr w)) cid = None \<and> cid \<notin> set q
                             then q @ [cid] else q)
                   idArray (preloadQueue (mgr w));
          w1 = w\<lparr>mgr := (mgr w)\<lparr>preloadQueue := q\<rparr>\<rparr>
      in if \<not> isLoading (mgr w1) then processPreloadQueue_begin cfg w1 else w1)"

text \<open>
  The rest of the arrow function of one batch member, run when its fetch has settled:
  store on success, log on failure, and drop the identifier from the queue in both cases.
\<close>

definition settle_member ::
  "'c cache_config \<Rightarrow> int \<Rightarrow> 'c option \<Rightarrow> content_id \<Rightarrow> 'c cache_manager \<Rightarrow> 'c cache_manager" where
  "settle_member cfg now result cid m =
     (let m1 = (case result of Some c \<Rightarrow> set_cache cfg now cid c m | None \<Rightarrow> m)
      in m1\<lparr>preloadQueue := removeAll cid (preloadQueue m1)\<rparr>)"

definition preload_resume ::
  "'c cache_config \<Rightarrow> int \<Rightarrow> promise \<Rightarrow> content_id \<Rightarrow> 'c option \<Rightarrow> 'c world \<Rightarrow> 'c world" where
  "preload_resume cfg now p cid result w =
     w\<lparr>mgr := settle_member cfg now result cid (mgr w),
       requests := filter (\<lambda>r. fst r \<noteq> p) (requests w)\<rparr>"

text \<open>
  The events of a run: a call of \<open>get\<close> or \<open>preloadContent\<close>, the settlement of a fetch
  in flight (which resumes the method that issued it), and the next pass of the preload
  loop, once every fetch of the pass before has settled (and the delay has gone by). The
  loop tests \<open>batch.size > 0\<close> on the \<open>batch\<close> taken before the loop. An event that
  cannot happen in a world yields \<open>None\<close>.
\<close>

datatype 'c event =
    Get content_id int
  | Preload "content_id list"
  | Settled promise "'c option" int
  | NextRound

definition step :: "'c cache_config \<Rightarrow> 'c event \<Rightarrow> 'c world \<Rightarrow> 'c world option" where
  "step cfg e w =
     (case e of
        Get cid now \<Rightarrow> Some (snd (get now cid w))
      | Preload cids \<Rightarrow> Some (preloadContent cfg cids w)
      | Settled p result now \<Rightarrow>
          (case map_of (requests w) p of
             None \<Rightarrow> None
           | Some (ByGet, cid) \<Rightarrow> Some (get_resume cfg now p cid result w)
           | Some (ByPreload, cid) \<Rightarrow> Some (preload_resume cfg now p cid result w))
      | NextRound \<Rightarrow>
          (if batch w \<noteq> [] \<and> (\<forall>r\<in>set (requests w). fst (snd r) \<noteq> ByPreload)
           then Some (start_round (batch w) w)
           else None))"

fun run :: "'c cache_config \<Rightarrow> 'c event list \<Rightarrow> 'c world \<Rightarrow> 'c world option" where
  "run cfg [] w = Some w"
| "run cfg (e # es) w = (case step cfg e w of None \<Rightarrow> None | Some w' \<Rightarrow> run cfg es w')"

definition new_world :: "int \<Rightarrow> 'c world" where
  "new_world now = \<lparr>mgr = new_manager now, requests = [], issued = 0, batch = []\<rparr>"

text \<open>
  The invariant of the runs: the promises registered in \<open>loadingPromises\<close> are exactly
  the fetches in flight that \<open>get\<close> issued.
\<close>

definition tracked :: "'c world \<Rightarrow> bool" where
  "tracked w \<longleftrightarrow>
     distinct (map fst (loadingPromises (mgr w)))
   \<and> distinct (map fst (requests w))
   \<and> (\<forall>r\<in>set (requests w). fst r < issued w)
   \<and> (\<forall>cid p. map_of (loadingPromises (mgr w)) cid = Some p
                 \<longleftrightarrow> (p, ByGet, cid) \<in> set (requests w))"

subsection \<open>The preload loop as a whole\<close>

text \<open>
  \<open>processPreloadQueue()\<close> from its call to its return, against a network that answers
  the fetch of \<open>cid\<close> in pass \<open>k\<close> with \<open>net k cid\<close> at time \<open>clock k\<close>; the members of a
  pass settle in the order of the batch here. A loop that does not return is \<open>None\<close>.
  The \<open>finally\<close> block resets \<open>isLoading\<close> when the loop returns.
\<close>

partial_function (option) drain_loop ::
  "'c cache_config \<Rightarrow> (nat \<Rightarrow> content_id \<Rightarrow> 'c option) \<Rightarrow> (nat \<Rightarrow> int) \<Rightarrow> content_id list
     \<Rightarrow> nat \<Rightarrow> 'c cache_manager \<Rightarrow> 'c cache_manager option" where
  "drain_loop cfg net clock b k m =
     (if b \<noteq> []
      then drain_loop cfg net clock b (Suc k)
             (fold (\<lambda>cid. settle_member cfg (clock k) (net k cid) cid) b m)
      else Some m)"

definition processPreloadQueue ::
  "'c cache_config \<Rightarrow> (nat \<Rightarrow> content_id \<Rightarrow> 'c option) \<Rightarrow> (nat \<Rightarrow> int) \<Rightarrow> 'c cache_manager
     \<Rightarrow> 'c cache_manager option" where
  "processPreloadQueue cfg net clock m =
     (if isLoading m \<or> preloadQueue m = [] then Some m
      else (let m1 = m\<lparr>isLoading := True\<rparr>;
                b = getBatch cfg m1
            in map_option (\<lambda>m'. m'\<lparr>isLoading := False\<rparr>) (drain_loop cfg net clock b 0 m1)))"

text \<open>The default configuration of the cache, for payloads that are strings.\<close>

definition default_cache :: "string cache_config" where
  "default_cache = \<lparr>maxSize = 50, preloadDelay = 1000, batchSize = 10, estimateSize = length\<rparr>"

definition small_cache :: "string cache_config" where
  "small_cache = \<lparr>maxSize = 2, preloadDelay = 1000, batchSize = 10, estimateSize = length\<rparr>"

text \<open>The entries that \<open>cleanup\<close> selects for removal.\<close>

definition victims :: "'c cache_config \<Rightarrow> 'c cache_manager \<Rightarrow> (content_id \<times> 'c entry) list" where
  "victims cfg m = take (length (cache m) - maxSize cfg)
                        (sort_key (\<lambda>e. lastAccessed (snd e)) (cache m))"

text \<open>
  A cache of three entries where two are allowed, as \<open>set\<close> leaves it before it calls
  \<open>cleanup\<close>; the world after \<open>preloadContent('x')\<close> on a new manager; and the world after
  a \<open>get('x')\<close> that follows it.
\<close>

definition three_entries :: "string cache_manager" where
  "three_entries = \<lparr>cache =
       [(''a'', \<lparr>content = ''A'', added = 0, lastAccessed = 2, size_bytes = 1\<rparr>),
        (''b'', \<lparr>content = ''B'', added = 1, lastAccessed = 1, size_bytes = 1\<rparr>),
        (''c'', \<lparr>content = ''C'', added = 3, lastAccessed = 3, size_bytes = 1\<rparr>)],
     preloadQueue = [], hits = 1, misses = 0, stats_size = 3,
     lastCleanup = 0, isLoading = False, loadingPromises = []\<rparr>"

definition preloading :: "string world" where
  "preloading = \<lparr>mgr = \<lparr>cache = [], preloadQueue = [''x''], hits = 0, misses = 0,
       stats_size = 0, lastCleanup = 0, isLoading = True, loadingPromises = []\<rparr>,
     requests = [(0, ByPreload, ''x'')], issued = 1, batch = [''x'']\<rparr>"

definition getting :: "string world" where
  "getting = \<lparr>mgr = \<lparr>cache = [], preloadQueue = [''x''], hits = 0, misses = 1,
       stats_size = 0, lastCleanup = 0, isLoading = True, loadingPromises = [(''x'', 1)]\<rparr>,
     requests = [(0, ByPreload, ''x''), (1, ByGet, ''x'')], issued = 2, batch = [''x'']\<rparr>"

text \<open>
  The world after \<open>preloadContent('x')\<close>, \<open>get('x')\<close> and the success of the preload
  fetch; and the world after \<open>preloadContent('x')\<close>, the success of its fetch and one
  more pass of the preload loop.
\<close>

definition raced :: "string world" where
  "raced = \<lparr>mgr = \<lparr>cache = [(''x'', \<lparr>content = ''X'', added = 2, lastAccessed = 2, size_bytes = 1\<rparr>)],
       preloadQueue = [], hits = 0, misses = 1,
       stats_size = 1, lastCleanup = 0, isLoading = True, loadingPromises = [(''x'', 1)]\<rparr>,
     requests = [(1, ByGet, ''x'')], issued = 2, batch = [''x'']\<rparr>"

definition refetching :: "string world" where
  "refetching = \<lparr>mgr = \<lparr>cache = [(''x'', \<lparr>content = ''X'', added = 1, lastAccessed = 1, size_bytes = 1\<rparr>)],
       preloadQueue = [], hits = 0, misses = 0,
       stats_size = 1, lastCleanup = 0, isLoading = True, loadingPromises = []\<rparr>,
     requests = [(1, ByPreload, ''x'')], issued = 2, batch = [''x'']\<rparr>"

section \<open>Properties of the geometry utilities\<close>

lemma fold_min_Min: "fold min as (a::real) = Min (set (a # as))"
  by (simp only: Min.set_eq_fold)

lemma fold_max_Max: "fold max as (a::real) = Max (set (a # as))"
  by (simp only: Max.set_eq_fold)

lemma calculateAverageAngle_nonempty:
  assumes "angles \<noteq> []"
  shows "calculateAverageAngle angles =
           Some (if Max (set angles) - Min (set angles) > pi
                 then js_rem ((Min (set angles) + Max (set angles) + 2 * pi) / 2) (2 * pi)
                 else (Min (set angles) + Max (set angles)) / 2)"
proof -
  from assms obtain a as where e: "angles = a # as" by (cases angles) auto
  show ?thesis
    unfolding e calculateAverageAngle_def list.case Let_def fold_min_Min fold_max_Max
    by simp
qed

lemma js_rem_nonneg:
  assumes "0 \<le> x" "0 < y"
  shows "js_rem x y = x - y * of_int \<lfloor>x / y\<rfloor>" "0 \<le> js_rem x y" "js_rem x y < y"
proof -
  have q: "0 \<le> x / y" using assms by simp
  show e: "js_rem x y = x - y * of_int \<lfloor>x / y\<rfloor>"
    using q by (simp add: js_rem_def js_trunc_def)
  have "of_int \<lfloor>x / y\<rfloor> \<le> x / y" by (rule of_int_floor_le)
  then have "of_int \<lfloor>x / y\<rfloor> * y \<le> x"
    using assms(2) by (simp only: pos_le_divide_eq)
  then have "y * of_int \<lfloor>x / y\<rfloor> \<le> x"
    by (simp only: mult.commute)
  then show "0 \<le> js_rem x y" unfolding e by simp
  have "x / y < of_int \<lfloor>x / y\<rfloor> + 1" by linarith
  then have "x < (of_int \<lfloor>x / y\<rfloor> + 1) * y"
    using assms(2) by (simp only: pos_divide_less_eq)
  then show "js_rem x y < y" unfolding e by (simp add: algebra_simps)
qed

lemma each_level_Nil: "each_level [] = []"
  by (subst each_level.simps) simp

lemma each_level_unroll: "cur \<noteq> [] \<Longrightarrow> each_level cur = cur @ each_level (concat (map kids_at cur))"
  by (subst each_level.simps) simp

lemma nxt_Nil: "(nxt ^^ j) [] = []"
  by (induction j) (simp_all add: nxt_def)

lemma kids_at_length: "c \<in> set (kids_at pn) \<Longrightarrow> length (fst c) = Suc (length (fst pn))"
  by (cases pn) auto

lemma kids_level_eq:
  assumes "\<forall>pn\<in>set cur. length (fst pn) = k"
  shows "\<forall>c\<in>set (concat (map kids_at cur)). length (fst c) = Suc k"
proof
  fix c assume "c \<in> set (concat (map kids_at cur))"
  then obtain pn where "pn \<in> set cur" "c \<in> set (kids_at pn)" by auto
  then show "length (fst c) = Suc k" using assms kids_at_length by metis
qed

lemma kids_level_ge:
  assumes "\<forall>pn\<in>set cur. k \<le> length (fst pn)"
  shows "\<forall>c\<in>set (concat (map kids_at cur)). Suc k \<le> length (fst c)"
proof
  fix c assume "c \<in> set (concat (map kids_at cur))"
  then obtain pn where "pn \<in> set cur" "c \<in> set (kids_at pn)" by auto
  then show "Suc k \<le> length (fst c)" using assms kids_at_length by (metis Suc_le_mono)
qed

lemma each_level_ge:
  "\<forall>pn\<in>set cur. k \<le> length (fst pn) \<Longrightarrow> \<forall>pn\<in>set (each_level cur). k \<le> length (fst pn)"
proof (induction cur arbitrary: k rule: each_level.induct)
  case (1 cur)
  show ?case
  proof (cases "cur = []")
    case True
    then show ?thesis by (simp add: each_level_Nil)
  next
    case False
    have "\<forall>pn\<in>set (concat (map kids_at cur)). Suc k \<le> length (fst pn)"
      using "1.prems" by (rule kids_level_ge)
    from "1.IH" [OF False this]
    have "\<forall>pn\<in>set (each_level (concat (map kids_at cur))). k \<le> length (fst pn)"
      using Suc_leD by blast
    moreover have "each_level cur = cur @ each_level (concat (map kids_at cur))"
      using False by (rule each_level_unroll)
    ultimately show ?thesis
      using "1.prems" by (simp add: ball_Un)
  qed
qed

lemma filter_level:
  "\<forall>pn\<in>set cur. length (fst pn) = k \<Longrightarrow>
   filter (\<lambda>d. length (fst d) = k + j) (each_level cur) = (nxt ^^ j) cur"
proof (induction cur arbitrary: k j rule: each_level.induct)
  case (1 cur)
  show ?case
  proof (cases "cur = []")
    case True
    then show ?thesis by (simp add: nxt_Nil each_level_Nil)
  next
    case False
    have nx: "\<forall>pn\<in>set (concat (map kids_at cur)). length (fst pn) = Suc k"
      using "1.prems" by (rule kids_level_eq)
    have unroll: "each_level cur = cur @ each_level (concat (map kids_at cur))"
      using False by (rule each_level_unroll)
    show ?thesis
    proof (cases j)
      case 0
      have "\<forall>pn\<in>set (each_level (concat (map kids_at cur))). Suc k \<le> length (fst pn)"
        by (rule each_level_ge) (use nx in simp)
      then have "filter (\<lambda>d. length (fst d) = k) (each_level (concat (map kids_at cur))) = []"
        by (auto simp: filter_empty_conv)
      moreover have "filter (\<lambda>d. length (fst d) = k) cur = cur"
        using "1.prems" by (simp add: filter_id_conv)
      ultimately show ?thesis using 0 unroll by simp
    next
      case (Suc j')
      have "filter (\<lambda>d. length (fst d) = Suc k + j') (each_level (concat (map kids_at cur)))
              = (nxt ^^ j') (concat (map kids_at cur))"
        by (rule "1.IH" [OF False nx])
      moreover have "filter (\<lambda>d. length (fst d) = k + Suc j') cur = []"
        using "1.prems" by (auto simp: filter_empty_conv)
      moreover have "(nxt ^^ Suc j') cur = (nxt ^^ j') (concat (map kids_at cur))"
        by (simp only: funpow_Suc_right comp_def nxt_def [symmetric])
      ultimately show ?thesis
        using Suc unroll by simp
    qed
  qed
qed

lemma depthTwoNodes_eq:
  "depthTwoNodes rt = concat (map kids_at (kids_at ([], rt)))"
proof -
  have "filter (\<lambda>d. length (fst d) = 0 + 2) (each_level [([], rt)]) = (nxt ^^ 2) [([], rt)]"
    by (rule filter_level) simp
  then show ?thesis
    by (simp add: depthTwoNodes_def descendants_def depth_def nxt_def numeral_2_eq_2)
qed

lemma kids_paths:
  "map fst (concat (map kids_at (kids_at ([], rt)))) =
     concat (map (\<lambda>i. map (\<lambda>j. [i, j]) [0..<length (children (children rt ! i))])
                 [0..<length (children rt)])"
  by (simp add: map_concat comp_def cong: map_cong)

lemma distinct_sibling_grouped:
  "distinct (concat (map (\<lambda>i. map (\<lambda>j. [i, j::nat]) [0..<f i]) [0..<n::nat]))"
proof (induction n)
  case 0
  show ?case by simp
next
  case (Suc n)
  have "distinct (map (\<lambda>j. [n, j]) [0..<f n])"
    by (simp add: distinct_map inj_on_def)
  then show ?case using Suc by auto
qed

lemma distinct_depthTwoNodes: "distinct (map fst (depthTwoNodes rt))"
  unfolding depthTwoNodes_eq kids_paths by (rule distinct_sibling_grouped)

lemma place_outer_simp: "place_outer st (i, p, n) x = x(p := real i * st)"
  by (simp add: place_outer_def)

lemma place_outer_other: "p \<noteq> fst (snd ind) \<Longrightarrow> place_outer st ind x p = x p"
  by (cases ind) (simp add: place_outer_def)

lemma fold_place_outer_other:
  "p \<notin> fst ` set ns \<Longrightarrow> fold (place_outer st) (enumerate k ns) x p = x p"
proof (induction ns arbitrary: k x)
  case Nil
  show ?case by simp
next
  case (Cons a ns)
  then show ?case by (cases a) (simp add: place_outer_simp)
qed

lemma fold_place_outer_at:
  "distinct (map fst ns) \<Longrightarrow> i < length ns \<Longrightarrow>
   fold (place_outer st) (enumerate k ns) x (fst (ns ! i)) = real (k + i) * st"
proof (induction ns arbitrary: k x i)
  case Nil
  then show ?case by simp
next
  case (Cons a ns)
  obtain p n where a: "a = (p, n)" by (cases a)
  show ?case
  proof (cases i)
    case 0
    have "p \<notin> fst ` set ns" using Cons.prems(1) a by simp
    then have "fold (place_outer st) (enumerate (Suc k) ns) (x(p := real k * st)) p = real k * st"
      by (simp add: fold_place_outer_other)
    then show ?thesis using 0 a by (simp add: place_outer_simp)
  next
    case (Suc i')
    have "fold (place_outer st) (enumerate (Suc k) ns) (place_outer st (k, a) x) (fst (ns ! i'))
            = real (Suc k + i') * st"
      by (rule Cons.IH) (use Cons.prems Suc in auto)
    then show ?thesis using Suc by simp
  qed
qed

lemma place_inner_other: "q \<noteq> fst pn \<Longrightarrow> place_inner pn x q = x q"
  by (simp add: place_inner_def Let_def split: option.splits)

lemma fold_place_inner_other:
  "q \<notin> fst ` set ps \<Longrightarrow> fold place_inner ps x q = x q"
  by (induction ps arbitrary: x) (simp_all add: place_inner_other)

lemma calculateAverageAngle_Some:
  "angles \<noteq> [] \<Longrightarrow> \<exists>a. calculateAverageAngle angles = Some a"
  by (simp add: calculateAverageAngle_nonempty)

lemma place_inner_at:
  assumes "children (snd pn) \<noteq> []"
  shows "calculateAverageAngle (map (\<lambda>child. x (fst child)) (kids_at pn))
           = Some (place_inner pn x (fst pn))"
proof -
  have "kids_at pn \<noteq> []" using assms by (cases pn) simp
  then obtain a where "calculateAverageAngle (map (\<lambda>child. x (fst child)) (kids_at pn)) = Some a"
    using calculateAverageAngle_Some [of "map (\<lambda>child. x (fst child)) (kids_at pn)"] by auto
  then show ?thesis using assms by (simp add: place_inner_def)
qed

lemma fold_place_inner_at:
  "distinct (map fst ps) \<Longrightarrow> pn \<in> set ps \<Longrightarrow> children (snd pn) \<noteq> [] \<Longrightarrow>
   \<forall>c\<in>set (kids_at pn). fst c \<notin> fst ` set ps \<Longrightarrow>
   calculateAverageAngle (map (\<lambda>child. x (fst child)) (kids_at pn))
     = Some (fold place_inner ps x (fst pn))"
proof (induction ps arbitrary: x)
  case Nil
  then show ?case by simp
next
  case (Cons a ps)
  show ?case
  proof (cases "pn = a")
    case True
    have "fst a \<notin> fst ` set ps" using Cons.prems(1) by simp
    then have "fold place_inner ps (place_inner a x) (fst a) = place_inner a x (fst a)"
      by (rule fold_place_inner_other)
    then show ?thesis using True place_inner_at [OF Cons.prems(3), of x] by simp
  next
    case False
    then have mem: "pn \<in> set ps" using Cons.prems(2) by simp
    have same: "map (\<lambda>child. place_inner a x (fst child)) (kids_at pn)
                  = map (\<lambda>child. x (fst child)) (kids_at pn)"
    proof (rule map_cong [OF refl])
      fix c assume "c \<in> set (kids_at pn)"
      then have "fst c \<noteq> fst a" using Cons.prems(4) by auto
      then show "place_inner a x (fst c) = x (fst c)" by (rule place_inner_other)
    qed
    have "calculateAverageAngle (map (\<lambda>child. place_inner a x (fst child)) (kids_at pn))
            = Some (fold place_inner ps (place_inner a x) (fst pn))"
      by (rule Cons.IH) (use Cons.prems mem in auto)
    then show ?thesis unfolding same by simp
  qed
qed

text \<open>
  On evenly spaced angles, as the layout assigns them to the children of one parent, the
  midpoint of the extreme angles is the arithmetic mean.
\<close>

lemma sum_evenly_spaced:
  "sum_list (map (\<lambda>j. a + real j * d) [0..<n]) = real n * a + d * (real n * (real n - 1) / 2)"
proof (induction n)
  case 0
  show ?case by simp
next
  case (Suc n)
  have "sum_list (map (\<lambda>j. a + real j * d) [0..<Suc n])
          = sum_list (map (\<lambda>j. a + real j * d) [0..<n]) + (a + real n * d)"
    by simp
  also have "\<dots> = real n * a + d * (real n * (real n - 1) / 2) + (a + real n * d)"
    unfolding Suc.IH by (rule refl)
  also have "\<dots> = real (Suc n) * a + d * (real (Suc n) * (real (Suc n) - 1) / 2)"
    by (simp add: field_simps)
  finally show ?case .
qed

lemma midpoint_is_mean_evenly_spaced:
  assumes "0 \<le> d" "0 < n"
  shows "(Min (set (map (\<lambda>j. a + real j * d) [0..<n]))
            + Max (set (map (\<lambda>j. a + real j * d) [0..<n]))) / 2
           = sum_list (map (\<lambda>j. a + real j * d) [0..<n]) / real n"
proof -
  let ?S = "set (map (\<lambda>j. a + real j * d) [0..<n])"
  have mn: "Min ?S = a"
  proof (rule Min_eqI)
    show "finite ?S" by simp
    show "a \<le> y" if "y \<in> ?S" for y using that assms(1) by auto
    show "a \<in> ?S" using assms(2) by (auto simp: image_iff intro!: bexI [of _ 0])
  qed
  have mx: "Max ?S = a + real (n - 1) * d"
  proof (rule Max_eqI)
    show "finite ?S" by simp
    show "y \<le> a + real (n - 1) * d" if "y \<in> ?S" for y
    proof -
      from that obtain j where j: "j < n" "y = a + real j * d" by auto
      then have "real j \<le> real (n - 1)" by simp
      then have "real j * d \<le> real (n - 1) * d" using assms(1) by (rule mult_right_mono)
      then show ?thesis using j(2) by simp
    qed
    show "a + real (n - 1) * d \<in> ?S"
      using assms(2) by (auto simp: image_iff intro!: bexI [of _ "n - 1"])
  qed
  have n1: "real (n - 1) = real n - 1" using assms(2) by (simp add: of_nat_diff)
  have nz: "real n \<noteq> 0" using assms(2) by simp
  show ?thesis
    unfolding mn mx sum_evenly_spaced n1 using nz by (simp add: field_simps)
qed

section \<open>Claims on the geometry utilities and the layout\<close>

text \<open>
  Claim C1, as stated, fails: for the angles 0, 0 and 2 (spread at most \<open>\<pi>\<close>) the
  function returns the midpoint 1 of the extreme angles, not the arithmetic mean 2/3.
\<close>

theorem calculateAverageAngle_mean_counterexample:
  "[0, 0, 2::real] \<noteq> [] \<and> Max (set [0, 0, 2::real]) - Min (set [0, 0, 2::real]) \<le> pi
   \<and> calculateAverageAngle [0, 0, 2]
       \<noteq> Some (sum_list [0, 0, 2] / real (length [0, 0, 2::real]))"
proof -
  have "(2::real) \<le> pi" by (rule pi_ge_two)
  then show ?thesis by (simp add: calculateAverageAngle_def)
qed

lemma wrap_example: "calculateAverageAngle [1 / 10, 2 * pi - 1 / 10] = Some 0"
proof -
  have p: "pi \<ge> 2" by (rule pi_ge_two)
  have mn: "min (2 * pi - 1 / 10) (1 / 10) = 1 / 10" using p by (simp add: min_def)
  have mx: "max (2 * pi - 1 / 10) (1 / 10) = 2 * pi - 1 / 10" using p by (simp add: max_def)
  have w: "2 * pi - 1 / 10 - 1 / 10 > pi" using p by simp
  have "js_rem ((1 / 10 + (2 * pi - 1 / 10) + 2 * pi) / 2) (2 * pi) = 0"
    using p by (simp add: js_rem_def js_trunc_def)
  then show ?thesis
    using w by (simp add: calculateAverageAngle_def mn mx)
qed

text \<open>
  Claim C1 (amended): for every non-empty sequence of angles, \<open>calculateAverageAngle\<close>
  returns the midpoint \<open>(min + max) / 2\<close> of the smallest and the largest angle when
  \<open>max - min \<le> \<pi>\<close>, and \<open>(min + max + 2\<pi>) / 2 % 2\<pi>\<close> when \<open>max - min > \<pi>\<close>; for
  non-negative angles that remainder is the mathematical one, in \<open>[0, 2\<pi>)\<close>. In
  particular the angles \<open>0.1\<close> and \<open>2\<pi> - 0.1\<close> average to 0.
\<close>

theorem calculateAverageAngle_midpoint:
  assumes "angles \<noteq> []"
  shows "(Max (set angles) - Min (set angles) \<le> pi \<longrightarrow>
            calculateAverageAngle angles = Some ((Min (set angles) + Max (set angles)) / 2))
       \<and> (Max (set angles) - Min (set angles) > pi \<longrightarrow>
            calculateAverageAngle angles
              = Some (js_rem ((Min (set angles) + Max (set angles) + 2 * pi) / 2) (2 * pi)))
       \<and> (0 \<le> Min (set angles) \<longrightarrow>
            js_rem ((Min (set angles) + Max (set angles) + 2 * pi) / 2) (2 * pi)
              = (Min (set angles) + Max (set angles) + 2 * pi) / 2
                - 2 * pi * of_int \<lfloor>(Min (set angles) + Max (set angles) + 2 * pi) / 2 / (2 * pi)\<rfloor>
          \<and> 0 \<le> js_rem ((Min (set angles) + Max (set angles) + 2 * pi) / 2) (2 * pi)
          \<and> js_rem ((Min (set angles) + Max (set angles) + 2 * pi) / 2) (2 * pi) < 2 * pi)
       \<and> calculateAverageAngle [1 / 10, 2 * pi - 1 / 10] = Some 0"
proof -
  have fin: "finite (set angles)" "set angles \<noteq> {}" using assms by simp_all
  have le: "Min (set angles) \<le> Max (set angles)" using fin by simp
  have nonneg: "0 \<le> (Min (set angles) + Max (set angles) + 2 * pi) / 2"
    if "0 \<le> Min (set angles)"
  proof -
    have "0 \<le> Min (set angles) + Max (set angles) + 2 * pi"
      using that le pi_ge_zero by linarith
    then show ?thesis by simp
  qed
  have pos: "0 < 2 * pi" by simp
  show ?thesis
    using calculateAverageAngle_nonempty [OF assms] wrap_example
          js_rem_nonneg [OF nonneg pos]
    by simp
qed

text \<open>
  The amended claim C1 at the angles \<open>\<pi>/2\<close>, 0 and \<open>\<pi>\<close> (no wrap: the midpoint
  \<open>\<pi>/2\<close>) and at the angles \<open>0.1\<close> and \<open>2\<pi> - 0.1\<close> (wrap: 0).
\<close>

theorem calculateAverageAngle_midpoint_witness:
  "[pi / 2, 0, pi] \<noteq> [] \<and> calculateAverageAngle [pi / 2, 0, pi] = Some (pi / 2)
   \<and> calculateAverageAngle [1 / 10, 2 * pi - 1 / 10] = Some 0"
proof -
  have mn: "Min (set [pi / 2, 0, pi]) = 0" by (simp add: min_def not_le)
  have mx: "Max (set [pi / 2, 0, pi]) = pi" by (simp add: max_def not_le)
  show ?thesis
    using calculateAverageAngle_midpoint [of "[pi / 2, 0, pi]"] unfolding mn mx by simp
qed

lemma depthOne_paths: "map fst (depthOneNodes rt) = map (\<lambda>i. [i]) [0..<length (children rt)]"
  by (simp add: depthOneNodes_def comp_def)

lemma depthTwo_not_depthOne: "c \<in> set (depthTwoNodes rt) \<Longrightarrow> fst c \<notin> fst ` set (depthOneNodes rt)"
proof -
  assume "c \<in> set (depthTwoNodes rt)"
  then have "length (fst c) = 2" by (simp add: depthTwoNodes_def depth_def)
  moreover have "\<forall>q \<in> set (depthOneNodes rt). length (fst q) = 1"
    by (auto simp: depthOneNodes_def)
  ultimately show ?thesis by force
qed

text \<open>
  Claim C2: in a hierarchy with \<open>N \<ge> 1\<close> depth-2 nodes, the depth-2 nodes are taken in
  sibling-grouped order (parents in the order of the root's children), the node at index
  \<open>i\<close> of that order gets the angle \<open>i * (2\<pi> / N)\<close> whatever its parent, and each
  depth-1 node with children gets \<open>calculateAverageAngle\<close> of its children's angles.
\<close>

theorem processDepthNodes_uniform:
  assumes "1 \<le> length (depthTwoNodes rt)"
  shows "map fst (depthTwoNodes rt)
           = concat (map (\<lambda>i. map (\<lambda>j. [i, j]) [0..<length (children (children rt ! i))])
                         [0..<length (children rt)])
       \<and> (\<forall>i<length (depthTwoNodes rt).
             processDepthNodes rt x (fst (depthTwoNodes rt ! i))
               = real i * (2 * pi / real (length (depthTwoNodes rt))))
       \<and> (\<forall>k<length (children rt). children (children rt ! k) \<noteq> [] \<longrightarrow>
             calculateAverageAngle
               (map (\<lambda>j. processDepthNodes rt x [k, j]) [0..<length (children (children rt ! k))])
               = Some (processDepthNodes rt x [k]))"
proof (intro conjI allI impI)
  show "map fst (depthTwoNodes rt)
           = concat (map (\<lambda>i. map (\<lambda>j. [i, j]) [0..<length (children (children rt ! i))])
                         [0..<length (children rt)])"
    unfolding depthTwoNodes_eq by (rule kids_paths)
next
  define x1 where "x1 = fold (place_outer (2 * pi / real (length (depthTwoNodes rt))))
                             (enumerate 0 (depthTwoNodes rt)) x"
  have pdn: "processDepthNodes rt x = fold place_inner (depthOneNodes rt) x1"
    using assms by (simp add: processDepthNodes_def x1_def Let_def)
  {
    fix i assume i: "i < length (depthTwoNodes rt)"
    have "fst (depthTwoNodes rt ! i) \<notin> fst ` set (depthOneNodes rt)"
      by (rule depthTwo_not_depthOne) (use i in simp)
    then have "processDepthNodes rt x (fst (depthTwoNodes rt ! i)) = x1 (fst (depthTwoNodes rt ! i))"
      unfolding pdn by (rule fold_place_inner_other)
    also have "\<dots> = real (0 + i) * (2 * pi / real (length (depthTwoNodes rt)))"
      unfolding x1_def by (rule fold_place_outer_at [OF distinct_depthTwoNodes i])
    finally show "processDepthNodes rt x (fst (depthTwoNodes rt ! i))
                    = real i * (2 * pi / real (length (depthTwoNodes rt)))" by simp
  }
  {
    fix k assume k: "k < length (children rt)" and ch: "children (children rt ! k) \<noteq> []"
    let ?pn = "([k], children rt ! k)"
    have mem: "?pn \<in> set (depthOneNodes rt)"
      using k by (auto simp: depthOneNodes_def)
    have dist: "distinct (map fst (depthOneNodes rt))"
      unfolding depthOne_paths by (simp add: distinct_map inj_on_def)
    have kids: "\<forall>c\<in>set (kids_at ?pn). fst c \<notin> fst ` set (depthOneNodes rt)"
      by (auto simp: depthOneNodes_def)
    have avg: "calculateAverageAngle (map (\<lambda>child. x1 (fst child)) (kids_at ?pn))
             = Some (fold place_inner (depthOneNodes rt) x1 (fst ?pn))"
      by (rule fold_place_inner_at [OF dist mem _ kids]) (use ch in simp)
    have same: "map (\<lambda>j. processDepthNodes rt x [k, j]) [0..<length (children (children rt ! k))]
                 = map (\<lambda>child. x1 (fst child)) (kids_at ?pn)"
      unfolding pdn by (simp add: comp_def fold_place_inner_other depthOneNodes_def image_iff)
    show "calculateAverageAngle
            (map (\<lambda>j. processDepthNodes rt x [k, j]) [0..<length (children (children rt ! k))])
            = Some (processDepthNodes rt x [k])"
      unfolding same using avg unfolding pdn by simp
  }
qed

lemma scenario_depthTwo:
  "depthTwoNodes scenario =
     [([0, 0], HNode ''a1'' []), ([0, 1], HNode ''a2'' []), ([0, 2], HNode ''a3'' []),
      ([1, 0], HNode ''b1'' [])]"
  by (simp add: depthTwoNodes_eq scenario_def upt_rec)

lemma scenario_children:
  "length (children scenario) = 2"
  "children scenario ! 0 = HNode ''A'' [HNode ''a1'' [], HNode ''a2'' [], HNode ''a3'' []]"
  "children scenario ! 1 = HNode ''B'' [HNode ''b1'' []]"
  by (simp_all add: scenario_def)

lemma upt_small: "[0..<3] = [0, 1, 2::nat]" "[0..<1] = [0::nat]"
  by (simp_all add: upt_rec)

text \<open>
  Claim C2 at the scenario: the four secondary nodes get the angles 0, \<open>\<pi>/2\<close>, \<open>\<pi>\<close>
  and \<open>3\<pi>/2\<close>, the first primary node \<open>\<pi>/2\<close> and the second primary node the angle
  \<open>3\<pi>/2\<close> of its only child.
\<close>

theorem processDepthNodes_uniform_witness:
  "1 \<le> length (depthTwoNodes scenario)
   \<and> map fst (depthTwoNodes scenario) = [[0, 0], [0, 1], [0, 2], [1, 0]]
   \<and> processDepthNodes scenario (\<lambda>n. 0) [0, 0] = 0
   \<and> processDepthNodes scenario (\<lambda>n. 0) [0, 1] = pi / 2
   \<and> processDepthNodes scenario (\<lambda>n. 0) [0, 2] = pi
   \<and> processDepthNodes scenario (\<lambda>n. 0) [1, 0] = 3 * pi / 2
   \<and> processDepthNodes scenario (\<lambda>n. 0) [0] = pi / 2
   \<and> processDepthNodes scenario (\<lambda>n. 0) [1] = 3 * pi / 2"
proof -
  have len: "1 \<le> length (depthTwoNodes scenario)" by (simp add: scenario_depthTwo)
  note th = processDepthNodes_uniform [OF len, of "\<lambda>n. 0"]
  have outer: "\<forall>i<4. processDepthNodes scenario (\<lambda>n. 0) (fst (depthTwoNodes scenario ! i))
                   = real i * (2 * pi / 4)"
    using th by (simp add: scenario_depthTwo)
  have a0: "processDepthNodes scenario (\<lambda>n. 0) [0, 0] = 0"
    using outer [rule_format, of 0] by (simp add: scenario_depthTwo)
  have a1: "processDepthNodes scenario (\<lambda>n. 0) [0, 1] = pi / 2"
    using outer [rule_format, of 1] by (simp add: scenario_depthTwo)
  have a2: "processDepthNodes scenario (\<lambda>n. 0) [0, 2] = pi"
    using outer [rule_format, of 2] by (simp add: scenario_depthTwo)
  have a3: "processDepthNodes scenario (\<lambda>n. 0) [1, 0] = 3 * pi / 2"
    using outer [rule_format, of 3] by (simp add: scenario_depthTwo)
  have inner: "\<forall>k<length (children scenario). children (children scenario ! k) \<noteq> [] \<longrightarrow>
             calculateAverageAngle
               (map (\<lambda>j. processDepthNodes scenario (\<lambda>n. 0) [k, j])
                    [0..<length (children (children scenario ! k))])
               = Some (processDepthNodes scenario (\<lambda>n. 0) [k])"
    using th by blast
  have l0: "length (children (children scenario ! 0)) = 3"
    and l1: "length (children (children scenario ! 1)) = 1"
    and c0: "children (children scenario ! 0) \<noteq> []"
    and c1: "children (children scenario ! 1) \<noteq> []"
    and k0: "0 < length (children scenario)" and k1: "1 < length (children scenario)"
    by (simp_all add: scenario_def)
  have m0: "map (\<lambda>j. processDepthNodes scenario (\<lambda>n. 0) [0, j]) [0..<3] = [0, pi / 2, pi]"
    unfolding upt_small list.map a0 a1 a2 by (rule refl)
  have m1: "map (\<lambda>j. processDepthNodes scenario (\<lambda>n. 0) [1, j]) [0..<1] = [3 * pi / 2]"
    unfolding upt_small list.map a3 by (rule refl)
  have "calculateAverageAngle [0, pi / 2, pi] = Some (processDepthNodes scenario (\<lambda>n. 0) [0])"
    using inner [rule_format, OF k0 c0] unfolding l0 m0 .
  moreover have "calculateAverageAngle [0, pi / 2, pi] = Some (pi / 2)"
  proof -
    have pz: "\<not> pi \<le> 0" using pi_gt_zero by linarith
    show ?thesis by (simp add: calculateAverageAngle_def min_def max_def pz)
  qed
  ultimately have b0: "processDepthNodes scenario (\<lambda>n. 0) [0] = pi / 2"
    by simp
  have "calculateAverageAngle [3 * pi / 2] = Some (processDepthNodes scenario (\<lambda>n. 0) [1])"
    using inner [rule_format, OF k1 c1] unfolding l1 m1 .
  then have b1: "processDepthNodes scenario (\<lambda>n. 0) [1] = 3 * pi / 2"
    by (simp add: calculateAverageAngle_def)
  show ?thesis using len a0 a1 a2 a3 b0 b1 by (simp add: scenario_depthTwo)
qed

section \<open>Claims on the selection classification\<close>

lemma scenario_descendants:
  "map fst (descendants scenario) = [[], [0], [1], [0, 0], [0, 1], [0, 2], [1, 0]]"
proof -
  let ?A = "HNode ''A'' [HNode ''a1'' [], HNode ''a2'' [], HNode ''a3'' []]"
  let ?B = "HNode ''B'' [HNode ''b1'' []]"
  let ?L0 = "[([], scenario)]"
  let ?L1 = "[([0], ?A), ([1], ?B)]"
  let ?L2 = "[([0, 0], HNode ''a1'' []), ([0, 1], HNode ''a2'' []), ([0, 2], HNode ''a3'' []),
              ([1, 0], HNode ''b1'' [])]"
  have k0: "concat (map kids_at ?L0) = ?L1"
    by (simp add: scenario_def upt_rec)
  have k1: "concat (map kids_at ?L1) = ?L2"
    by (simp add: upt_rec)
  have k2: "concat (map kids_at ?L2) = []"
    by simp
  have e2: "each_level ?L2 = ?L2"
    using each_level_unroll [of ?L2] unfolding k2 each_level_Nil by simp
  have e1: "each_level ?L1 = ?L1 @ ?L2"
    using each_level_unroll [of ?L1] unfolding k1 e2 by simp
  have e0: "each_level ?L0 = ?L0 @ ?L1 @ ?L2"
    using each_level_unroll [of ?L0] unfolding k0 e1 by simp
  show ?thesis
    unfolding descendants_def e0 by simp
qed

text \<open>
  Claim C4, as stated, fails: with the depth-2 node \<open>[0, 0]\<close> of the scenario selected,
  its depth-1 parent \<open>[0]\<close> is classified active as well.
\<close>

theorem isActiveNode_depth2_counterexample:
  "[0, 0] \<in> set (map fst (descendants scenario)) \<and> [0] \<in> set (map fst (descendants scenario))
   \<and> depth [0, 0] = 2 \<and> [0::nat] \<noteq> [0, 0] \<and> isActiveNode [0] (Some [0, 0])"
  unfolding scenario_descendants by (simp add: depth_def isActiveNode_def parent_def)

text \<open>
  Claim C4 (amended): the active nodes are exactly the selected node \<open>S\<close>, the parent of
  \<open>S\<close> when it has one, and the depth-0 root; with no selection, exactly the root. So a
  depth-0 selection activates the root only, a depth-1 selection itself and the root (its
  parent), and a depth-2 selection itself, its depth-1 parent and the root.
\<close>

theorem isActiveNode_exact:
  "(isActiveNode n None \<longleftrightarrow> n = [])
   \<and> (isActiveNode n (Some s) \<longleftrightarrow> n = s \<or> Some n = parent s \<or> n = [])
   \<and> (depth s = 0 \<longrightarrow> (isActiveNode n (Some s) \<longleftrightarrow> n = s))
   \<and> (depth s = 1 \<longrightarrow> (isActiveNode n (Some s) \<longleftrightarrow> n = s \<or> n = []) \<and> parent s = Some [])
   \<and> (depth s = 2 \<longrightarrow> (isActiveNode n (Some s) \<longleftrightarrow> n = s \<or> n = butlast s \<or> n = [])
                        \<and> depth (butlast s) = 1)"
proof -
  have one: "parent s = Some []" if "depth s = 1"
  proof -
    from that obtain a where "s = [a]" by (cases s) (auto simp: depth_def)
    then show ?thesis by (simp add: parent_def)
  qed
  show ?thesis
    using one by (auto simp: isActiveNode_def depth_def parent_def)
qed

text \<open>
  The amended claim C4 at the scenario's nodes.
\<close>

theorem isActiveNode_exact_witness:
  "depth [0, 0] = 2 \<and> isActiveNode [0, 0] (Some [0, 0]) \<and> isActiveNode [0] (Some [0, 0])
   \<and> isActiveNode [] (Some [0, 0]) \<and> \<not> isActiveNode [0, 1] (Some [0, 0])
   \<and> \<not> isActiveNode [1] (Some [0, 0])
   \<and> depth [1] = 1 \<and> isActiveNode [] (Some [1]) \<and> \<not> isActiveNode [1, 0] (Some [1])
   \<and> depth [] = 0 \<and> \<not> isActiveNode [0] (Some [])"
  using isActiveNode_exact [of "[0, 0]" "[0, 0]"] isActiveNode_exact [of "[0]" "[0, 0]"]
        isActiveNode_exact [of "[]" "[0, 0]"] isActiveNode_exact [of "[0, 1]" "[0, 0]"]
        isActiveNode_exact [of "[1]" "[0, 0]"] isActiveNode_exact [of "[]" "[1]"]
        isActiveNode_exact [of "[1, 0]" "[1]"] isActiveNode_exact [of "[0]" "[]"]
  by (simp add: depth_def parent_def)

lemma links_parent: "(src, tgt) \<in> set (links rt) \<Longrightarrow> tgt \<noteq> [] \<and> src = butlast tgt"
  by (auto simp: links_def parent_def split: option.splits if_splits)

lemma scenario_links:
  "links scenario = [([], [0]), ([], [1]), ([0], [0, 0]), ([0], [0, 1]), ([0], [0, 2]), ([1], [1, 0])]"
proof -
  have "links scenario = concat (map (\<lambda>n. case parent n of None \<Rightarrow> [] | Some p \<Rightarrow> [(p, n)])
                                 (map fst (descendants scenario)))"
    by (simp add: links_def comp_def)
  then show ?thesis unfolding scenario_descendants by (simp add: parent_def)
qed

text \<open>
  Claim C5, as stated, fails: with the depth-2 node \<open>[0, 0]\<close> of the scenario selected,
  the link from its parent \<open>[0]\<close> to its sibling \<open>[0, 1]\<close> is classified active.
\<close>

theorem isActivePath_sibling_counterexample:
  "depth [0, 0] = 2 \<and> ([0], [0, 1]) \<in> set (links scenario) \<and> parent [0, 0] = Some [0]
   \<and> parent [0, 1] = parent [0, 0] \<and> [0, 1::nat] \<noteq> [0, 0]
   \<and> isActivePath (Some ([0], [0, 1])) (Some [0, 0])"
  unfolding scenario_links by (simp add: depth_def isActivePath_def parent_def)

text \<open>
  Claim C5 (amended): for a depth-2 selection \<open>S\<close> a link is active exactly when its
  target is \<open>S\<close>, or its source is the parent of \<open>S\<close>, or it is the link from the root
  (the grandparent of \<open>S\<close>) to the parent of \<open>S\<close>. Among the links of a hierarchy these
  are all the links leaving the parent of \<open>S\<close>, to \<open>S\<close> and to its siblings alike, and
  the link entering the parent of \<open>S\<close>.
\<close>

theorem isActivePath_depth2:
  assumes "depth s = 2"
  shows "(isActivePath (Some (src, tgt)) (Some s)
            \<longleftrightarrow> tgt = s \<or> src = butlast s \<or> (src = [] \<and> tgt = butlast s))
       \<and> ((src, tgt) \<in> set (links rt) \<longrightarrow>
            (isActivePath (Some (src, tgt)) (Some s) \<longleftrightarrow> src = butlast s \<or> tgt = butlast s))
       \<and> parent s = Some (butlast s) \<and> Option.bind (parent s) parent = Some []"
proof -
  from assms obtain a b where s: "s = [a, b]"
    by (cases s; cases "tl s") (auto simp: depth_def)
  have main: "isActivePath (Some (src, tgt)) (Some s)
            \<longleftrightarrow> tgt = s \<or> src = butlast s \<or> (src = [] \<and> tgt = butlast s)"
    unfolding s by (auto simp: isActivePath_def depth_def parent_def)
  have "src = butlast s \<or> tgt = butlast s
          \<longleftrightarrow> tgt = s \<or> src = butlast s \<or> (src = [] \<and> tgt = butlast s)"
    if "(src, tgt) \<in> set (links rt)"
    using links_parent [OF that] unfolding s by auto
  then show ?thesis using main unfolding s by (simp add: parent_def)
qed

text \<open>
  The amended claim C5 at the scenario's links.
\<close>

theorem isActivePath_depth2_witness:
  "depth [0, 0] = 2 \<and> ([0], [0, 2]) \<in> set (links scenario)
   \<and> isActivePath (Some ([0], [0, 0])) (Some [0, 0])
   \<and> isActivePath (Some ([0], [0, 2])) (Some [0, 0])
   \<and> isActivePath (Some ([], [0])) (Some [0, 0])
   \<and> \<not> isActivePath (Some ([], [1])) (Some [0, 0])
   \<and> \<not> isActivePath (Some ([1], [1, 0])) (Some [0, 0])"
proof -
  have d: "depth [0, 0] = 2" by (simp add: depth_def)
  have l: "([0], [0, 2]) \<in> set (links scenario)" unfolding scenario_links by simp
  show ?thesis
    using d l isActivePath_depth2 [OF d, of "[0]" "[0, 0]" scenario]
      isActivePath_depth2 [OF d, of "[0]" "[0, 2]" scenario]
      isActivePath_depth2 [OF d, of "[]" "[0]" scenario]
      isActivePath_depth2 [OF d, of "[]" "[1]" scenario]
      isActivePath_depth2 [OF d, of "[1]" "[1, 0]" scenario]
    by simp
qed

section \<open>Claims on the click handler and the resize handler\<close>

lemma guard_always_truthy: "truthy (property_of sm ''isTransitioning'')"
  by (simp add: property_of_def StateManager_methods_def)

lemma handleNodeClick_returns_early: "handleNodeClick nd sm = sm"
  by (simp add: handleNodeClick_def guard_always_truthy)

lemma updateState_selects:
  "selectedNode (state (updateState [SelectedNode (Some n), IsTransitioning True] sm)) = Some n
   \<and> isTransitioning (state (updateState [SelectedNode (Some n), IsTransitioning True] sm))"
  by (simp add: updateState_def Let_def)

text \<open>
  Claim C3 at an idle coordinator: the guard of \<open>handleNodeClick\<close> reads the method
  \<open>isTransitioning\<close> as a property, which is a function and so always truthy; the click on
  node \<open>[0]\<close> returns early, the selection stays empty and no transition begins, although
  \<open>isTransitioning()\<close> is false.
\<close>

theorem handleNodeClick_idle_ignored:
  "\<not> isTransitioning_call idle_manager
   \<and> handleNodeClick (Some [0]) idle_manager = idle_manager
   \<and> selectedNode (state (handleNodeClick (Some [0]) idle_manager)) = None
   \<and> \<not> isTransitioning (state (handleNodeClick (Some [0]) idle_manager))"
  by (simp add: handleNodeClick_def property_of_def StateManager_methods_def
        isTransitioning_call_def idle_manager_def)

lemma controller_resize_always_updates:
  "fst (CircularNavManager_handleResize cfg vp sm dm) = True"
  by (simp add: CircularNavManager_handleResize_def property_of_def StateManager_methods_def
        calculateDimensions_def Let_def)

lemma hasSignificantChanges_self:
  assumes "0 \<le> width d" "0 \<le> height d"
  shows "\<not> hasSignificantChanges d (dm\<lparr>lastDimensions := Some d\<rparr>)"
proof -
  have "\<not> 0 > width d * (1 / 100)" "\<not> 0 > height d * (1 / 100)" using assms by simp_all
  then show ?thesis by (simp add: hasSignificantChanges_def Let_def)
qed

lemma handleResize_never_updates:
  assumes "0 \<le> calculateWidth cfg vp" "0 \<le> calculateHeight cfg vp"
  shows "fst (handleResize cfg vp dm) = False"
proof -
  let ?d = "\<lparr>width = calculateWidth cfg vp, height = calculateHeight cfg vp,
             radius = calculateRadius cfg vp\<rparr>"
  have "\<not> hasSignificantChanges ?d (dm\<lparr>lastDimensions := Some ?d\<rparr>)"
    by (rule hasSignificantChanges_self) (use assms in simp_all)
  then show ?thesis
    by (simp add: handleResize_def calculateDimensions_def Let_def)
qed

text \<open>
  Claim C9 at a resize from 1000 to 1050 pixels (a change of 5 percent):
  \<open>calculateDimensions\<close> has already overwritten \<open>lastDimensions\<close> with the new object
  when \<open>hasSignificantChanges\<close> compares, so no re-layout is triggered.
\<close>

theorem handleResize_1050_no_update:
  "width (fst (calculateDimensions default_display viewport_1000 setup_display)) = 1000
   \<and> width (fst (calculateDimensions default_display viewport_1050 setup_display)) = 1050
   \<and> \<bar>1050 - 1000\<bar> > (1000::real) * (1 / 100)
   \<and> fst (handleResize default_display viewport_1050
             (snd (calculateDimensions default_display viewport_1000 setup_display))) = False"
proof -
  have w0: "calculateWidth default_display viewport_1000 = 1000"
    by (simp add: calculateWidth_def default_display_def viewport_1000_def)
  have w1: "calculateWidth default_display viewport_1050 = 1050"
    by (simp add: calculateWidth_def default_display_def viewport_1050_def)
  have h1: "calculateHeight default_display viewport_1050 = 700"
    by (simp add: calculateHeight_def default_display_def viewport_1050_def)
  have "fst (handleResize default_display viewport_1050 dm) = False" for dm
    by (rule handleResize_never_updates) (simp_all add: w1 h1)
  then show ?thesis
    by (simp add: calculateDimensions_def Let_def w0 w1)
qed

section \<open>Properties of the cache\<close>

lemma fold_delete_filter:
  "fold (\<lambda>e c. AList.delete (fst e) c) es c = filter (\<lambda>kv. fst kv \<notin> fst ` set es) c"
proof (induction es arbitrary: c)
  case Nil
  show ?case by simp
next
  case (Cons e es)
  have "AList.delete (fst e) c = filter (\<lambda>kv. fst kv \<noteq> fst e) c"
    by (simp add: AList.delete_eq case_prod_unfold neq_commute)
  then show ?case using Cons.IH [of "AList.delete (fst e) c"]
    by (auto intro: filter_cong)
qed

lemma cleanup_cache:
  "cache (cleanup cfg now m) = filter (\<lambda>kv. fst kv \<notin> fst ` set (victims cfg m)) (cache m)"
proof (cases "length (cache m) \<le> maxSize cfg")
  case True
  then show ?thesis by (simp add: cleanup_def victims_def)
next
  case False
  then show ?thesis by (simp add: cleanup_def victims_def Let_def fold_delete_filter)
qed

lemma victims_subset: "set (victims cfg m) \<subseteq> set (cache m)"
proof -
  have "set (victims cfg m) \<subseteq> set (sort_key (\<lambda>e. lastAccessed (snd e)) (cache m))"
    unfolding victims_def by (rule set_take_subset)
  then show ?thesis by simp
qed

lemma cleanup_cache_distinct:
  assumes "distinct (map fst (cache m))"
  shows "cache (cleanup cfg now m) = filter (\<lambda>kv. kv \<notin> set (victims cfg m)) (cache m)"
proof -
  have inj: "inj_on fst (set (cache m))" using assms by (simp add: distinct_map)
  have "fst kv \<notin> fst ` set (victims cfg m) \<longleftrightarrow> kv \<notin> set (victims cfg m)"
    if "kv \<in> set (cache m)" for kv
  proof
    assume "fst kv \<notin> fst ` set (victims cfg m)"
    then show "kv \<notin> set (victims cfg m)" by auto
  next
    assume n: "kv \<notin> set (victims cfg m)"
    show "fst kv \<notin> fst ` set (victims cfg m)"
    proof
      assume "fst kv \<in> fst ` set (victims cfg m)"
      then obtain v where v: "v \<in> set (victims cfg m)" "fst kv = fst v" by auto
      then have "v \<in> set (cache m)" using victims_subset by blast
      then have "kv = v" using inj that v(2) by (auto dest: inj_onD)
      then show False using n v(1) by simp
    qed
  qed
  then have "filter (\<lambda>kv. fst kv \<notin> fst ` set (victims cfg m)) (cache m)
               = filter (\<lambda>kv. kv \<notin> set (victims cfg m)) (cache m)"
    by (intro filter_cong refl) 
  then show ?thesis unfolding cleanup_cache .
qed

lemma cleanup_length:
  assumes "distinct (map fst (cache m))"
  shows "length (cache (cleanup cfg now m)) = min (length (cache m)) (maxSize cfg)"
proof -
  let ?c = "cache m" and ?v = "victims cfg m"
  have dc: "distinct ?c" using assms by (simp add: distinct_map)
  have dv: "distinct ?v" unfolding victims_def using dc by (simp add: distinct_take)
  have lv: "length ?v = length ?c - maxSize cfg" unfolding victims_def by simp
  have "length (filter (\<lambda>kv. kv \<notin> set ?v) ?c) = card (set ?c - set ?v)"
  proof -
    have "distinct (filter (\<lambda>kv. kv \<notin> set ?v) ?c)" using dc by simp
    then have "length (filter (\<lambda>kv. kv \<notin> set ?v) ?c) = card (set (filter (\<lambda>kv. kv \<notin> set ?v) ?c))"
      by (rule distinct_card [symmetric])
    also have "set (filter (\<lambda>kv. kv \<notin> set ?v) ?c) = set ?c - set ?v" by auto
    finally show ?thesis .
  qed
  also have "\<dots> = card (set ?c) - card (set ?v)"
    by (rule card_Diff_subset) (simp_all add: victims_subset)
  also have "\<dots> = length ?c - length ?v" using dc dv by (simp add: distinct_card)
  finally show ?thesis unfolding cleanup_cache_distinct [OF assms] lv by simp
qed

lemma cleanup_lru_order:
  assumes "distinct (map fst (cache m))"
      and r: "r \<in> set (cache m)" "r \<notin> set (cache (cleanup cfg now m))"
      and k: "k \<in> set (cache (cleanup cfg now m))"
  shows "lastAccessed (snd r) \<le> lastAccessed (snd k)"
proof -
  let ?f = "\<lambda>e::content_id \<times> 'a entry. lastAccessed (snd e)"
  let ?s = "sort_key ?f (cache m)"
  let ?n = "length (cache m) - maxSize cfg"
  have kept: "cache (cleanup cfg now m) = filter (\<lambda>kv. kv \<notin> set (victims cfg m)) (cache m)"
    by (rule cleanup_cache_distinct [OF assms(1)])
  have rv: "r \<in> set (take ?n ?s)" using r unfolding kept victims_def by simp
  have "k \<in> set (cache m)" "k \<notin> set (take ?n ?s)" using k unfolding kept victims_def by simp_all
  moreover have "set (take ?n ?s) \<union> set (drop ?n ?s) = set (cache m)"
    using set_append [of "take ?n ?s" "drop ?n ?s"] by simp
  ultimately have kd: "k \<in> set (drop ?n ?s)" by blast
  have "sorted (map ?f (take ?n ?s @ drop ?n ?s))" by simp
  then have "\<forall>x\<in>set (take ?n ?s). \<forall>y\<in>set (drop ?n ?s). ?f x \<le> ?f y"
    unfolding map_append sorted_append by auto
  then show ?thesis using rv kd by blast
qed

lemma cleanup_distinct:
  "distinct (map fst (cache m)) \<Longrightarrow> distinct (map fst (cache (cleanup cfg now m)))"
  unfolding cleanup_cache by (rule distinct_map_filter)

lemma set_cache_distinct:
  assumes "distinct (map fst (cache m))"
  shows "distinct (map fst (cache (set_cache cfg now cid c m)))"
proof -
  have "distinct (map fst (AList.update cid e (cache m)))" for e
    using assms by (rule distinct_update)
  then show ?thesis
    by (simp add: set_cache_def Let_def cleanup_distinct)
qed

lemma set_cache_bounded:
  assumes "distinct (map fst (cache m))"
  shows "length (cache (set_cache cfg now cid c m)) \<le> maxSize cfg"
proof -
  let ?e = "\<lparr>content = c, added = now, lastAccessed = now, size_bytes = estimateSize cfg c\<rparr>"
  let ?m2 = "m\<lparr>cache := AList.update cid ?e (cache m), stats_size := length (AList.update cid ?e (cache m))\<rparr>"
  have d: "distinct (map fst (cache ?m2))" using assms by (simp add: distinct_update)
  show ?thesis
  proof (cases "shouldCleanup cfg now ?m2")
    case True
    then have "set_cache cfg now cid c m = cleanup cfg now ?m2"
      by (simp add: set_cache_def Let_def)
    then show ?thesis using cleanup_length [OF d, of cfg now] by simp
  next
    case False
    then have "set_cache cfg now cid c m = ?m2" by (simp add: set_cache_def Let_def)
    moreover have "length (cache ?m2) \<le> maxSize cfg"
      using False by (simp add: shouldCleanup_def Let_def)
    ultimately show ?thesis by simp
  qed
qed

lemma set_all_distinct:
  "distinct (map fst (cache m)) \<Longrightarrow> distinct (map fst (cache (set_all cfg calls m)))"
  unfolding set_all_def
  by (induction calls arbitrary: m) (auto simp: set_cache_distinct)

lemma set_all_bounded:
  "distinct (map fst (cache m)) \<Longrightarrow> calls \<noteq> [] \<Longrightarrow> length (cache (set_all cfg calls m)) \<le> maxSize cfg"
proof (induction calls arbitrary: m rule: rev_induct)
  case Nil
  then show ?case by simp
next
  case (snoc call calls)
  obtain now cid c where call: "call = (now, cid, c)" by (cases call)
  have "set_all cfg (calls @ [call]) m = set_cache cfg now cid c (set_all cfg calls m)"
    by (simp add: set_all_def call)
  then show ?case
    using set_cache_bounded [OF set_all_distinct [OF snoc.prems(1)]] by simp
qed

lemma cleanup_loadingPromises [simp]: "loadingPromises (cleanup cfg now m) = loadingPromises m"
  by (simp add: cleanup_def Let_def)

lemma set_cache_loadingPromises [simp]:
  "loadingPromises (set_cache cfg now cid c m) = loadingPromises m"
  by (simp add: set_cache_def Let_def)

lemma settle_member_loadingPromises [simp]:
  "loadingPromises (settle_member cfg now result cid m) = loadingPromises m"
  by (simp add: settle_member_def Let_def split: option.splits)

lemma start_round_Cons: "start_round (a # b) w = start_round b (snd (fetchContent ByPreload a w))"
  by (simp add: start_round_def)

lemma start_round_mgr [simp]: "mgr (start_round b w) = mgr w"
  by (induction b arbitrary: w) (simp_all add: start_round_Cons fetchContent_def, simp add: start_round_def)

lemma start_round_batch [simp]: "batch (start_round b w) = batch w"
  by (induction b arbitrary: w) (simp_all add: start_round_Cons fetchContent_def, simp add: start_round_def)

lemma start_round_issued: "issued (start_round b w) = issued w + length b"
  by (induction b arbitrary: w) (simp_all add: start_round_Cons fetchContent_def, simp add: start_round_def)

lemma start_round_requests:
  "requests (start_round b w)
     = requests w @ map (\<lambda>ic. (issued w + fst ic, ByPreload, snd ic)) (enumerate 0 b)"
proof (induction b arbitrary: w)
  case Nil
  show ?case by (simp add: start_round_def)
next
  case (Cons a b)
  have "map (\<lambda>ic. (issued w + fst ic, ByPreload, snd ic)) (enumerate 0 (a # b))
          = (issued w, ByPreload, a)
            # map (\<lambda>ic. (Suc (issued w) + fst ic, ByPreload, snd ic)) (enumerate 0 b)"
    by (simp add: enumerate_Suc_eq comp_def case_prod_unfold)
  then show ?case unfolding start_round_Cons Cons.IH by (simp add: fetchContent_def)
qed

lemmas start_round_facts = start_round_issued start_round_requests

lemma tracked_add_preload:
  assumes "tracked w"
  shows "tracked (start_round b w)"
proof -
  let ?new = "map (\<lambda>ic. (issued w + fst ic, ByPreload, snd ic)) (enumerate 0 b)"
  have "map fst ?new = map (\<lambda>i. issued w + i) (map fst (enumerate 0 b))"
    by (simp only: map_map comp_def fst_conv)
  then have fsts: "map fst ?new = map (\<lambda>i. issued w + i) [0..<length b]"
    by (simp only: map_fst_enumerate add_0)
  have d1: "distinct (map fst ?new)" unfolding fsts by (simp add: distinct_map inj_on_def)
  have d2: "set (map fst (requests w)) \<inter> set (map fst ?new) = {}"
    using assms unfolding fsts tracked_def by fastforce
  have noget: "(p, ByGet, cid) \<notin> set ?new" for p cid by auto
  have bound: "\<forall>r\<in>set ?new. fst r < issued w + length b"
    by (auto simp: in_set_enumerate_eq)
  show ?thesis
    using assms d1 d2 noget bound
    unfolding tracked_def start_round_facts start_round_mgr
    by (simp add: ball_Un) (meson trans_less_add1)
qed

lemma tracked_mgr_irrelevant:
  assumes "tracked w" "loadingPromises m' = loadingPromises (mgr w)"
  shows "tracked (w\<lparr>mgr := m'\<rparr>)"
  using assms by (simp add: tracked_def)

lemma get_in_flight:
  assumes "map_of (loadingPromises (mgr w)) cid = Some p"
  shows "get now cid w = (InFlight p, w)"
  using assms by (simp add: get_def)

lemma get_hit:
  assumes "map_of (loadingPromises (mgr w)) cid = None" "map_of (cache (mgr w)) cid = Some e"
  shows "get now cid w = (Cached (content e),
           w\<lparr>mgr := (mgr w)\<lparr>hits := hits (mgr w) + 1,
                cache := AList.update cid (e\<lparr>lastAccessed := now\<rparr>) (cache (mgr w))\<rparr>\<rparr>)"
  using assms by (simp add: get_def)

lemma get_miss:
  assumes "map_of (loadingPromises (mgr w)) cid = None" "map_of (cache (mgr w)) cid = None"
  shows "get now cid w = (InFlight (issued w),
           w\<lparr>mgr := (mgr w)\<lparr>misses := misses (mgr w) + 1,
                loadingPromises := AList.update cid (issued w) (loadingPromises (mgr w))\<rparr>,
             requests := requests w @ [(issued w, ByGet, cid)],
             issued := Suc (issued w)\<rparr>)"
  using assms by (simp add: get_def fetchContent_def Let_def)

lemma tracked_get:
  assumes t: "tracked w"
  shows "tracked (snd (get now cid w))"
proof (cases "map_of (loadingPromises (mgr w)) cid")
  case (Some p)
  then show ?thesis using t by (simp add: get_in_flight)
next
  case None
  show ?thesis
  proof (cases "map_of (cache (mgr w)) cid")
    case (Some e)
    show ?thesis unfolding get_hit [OF None Some] snd_conv
      by (rule tracked_mgr_irrelevant [OF t]) simp
  next
    case miss: None
    have fresh: "issued w \<notin> fst ` set (requests w)"
      using t unfolding tracked_def by fastforce
    have none: "(q, ByGet, cid) \<notin> set (requests w)" for q
      using t None unfolding tracked_def by (metis option.distinct(1))
    have iff: "map_of (loadingPromises (mgr w)) i = Some q \<longleftrightarrow> (q, ByGet, i) \<in> set (requests w)" for i q
      using t unfolding tracked_def by blast
    have d: "distinct (map fst (AList.update cid (issued w) (loadingPromises (mgr w))))"
      using t unfolding tracked_def by (simp add: distinct_update)
    have "tracked (w\<lparr>mgr := (mgr w)\<lparr>misses := misses (mgr w) + 1,
                loadingPromises := AList.update cid (issued w) (loadingPromises (mgr w))\<rparr>,
             requests := requests w @ [(issued w, ByGet, cid)],
             issued := Suc (issued w)\<rparr>)"
      unfolding tracked_def
    proof (intro conjI allI ballI)
      show "distinct (map fst (loadingPromises (mgr (w\<lparr>mgr := (mgr w)\<lparr>misses := misses (mgr w) + 1,
                loadingPromises := AList.update cid (issued w) (loadingPromises (mgr w))\<rparr>,
             requests := requests w @ [(issued w, ByGet, cid)],
             issued := Suc (issued w)\<rparr>))))"
        using d by simp
    next
      show "distinct (map fst (requests (w\<lparr>mgr := (mgr w)\<lparr>misses := misses (mgr w) + 1,
                loadingPromises := AList.update cid (issued w) (loadingPromises (mgr w))\<rparr>,
             requests := requests w @ [(issued w, ByGet, cid)],
             issued := Suc (issued w)\<rparr>)))"
        using t fresh unfolding tracked_def by simp
    next
      fix r
      assume "r \<in> set (requests (w\<lparr>mgr := (mgr w)\<lparr>misses := misses (mgr w) + 1,
                loadingPromises := AList.update cid (issued w) (loadingPromises (mgr w))\<rparr>,
             requests := requests w @ [(issued w, ByGet, cid)],
             issued := Suc (issued w)\<rparr>))"
      then show "fst r < issued (w\<lparr>mgr := (mgr w)\<lparr>misses := misses (mgr w) + 1,
                loadingPromises := AList.update cid (issued w) (loadingPromises (mgr w))\<rparr>,
             requests := requests w @ [(issued w, ByGet, cid)],
             issued := Suc (issued w)\<rparr>)"
        using t unfolding tracked_def by (auto simp: less_Suc_eq)
    next
      fix i q
      show "map_of (loadingPromises (mgr (w\<lparr>mgr := (mgr w)\<lparr>misses := misses (mgr w) + 1,
                loadingPromises := AList.update cid (issued w) (loadingPromises (mgr w))\<rparr>,
             requests := requests w @ [(issued w, ByGet, cid)],
             issued := Suc (issued w)\<rparr>))) i = Some q
            \<longleftrightarrow> (q, ByGet, i) \<in> set (requests (w\<lparr>mgr := (mgr w)\<lparr>misses := misses (mgr w) + 1,
                loadingPromises := AList.update cid (issued w) (loadingPromises (mgr w))\<rparr>,
             requests := requests w @ [(issued w, ByGet, cid)],
             issued := Suc (issued w)\<rparr>))"
        using iff [of i q] none [of q] by (auto simp: update_conv')
    qed
    then show ?thesis unfolding get_miss [OF None miss] snd_conv .
  qed
qed

lemma tracked_get_resume:
  assumes t: "tracked w" and req: "map_of (requests w) p = Some (ByGet, cid)"
  shows "tracked (get_resume cfg now p cid result w)"
proof -
  have mem: "(p, ByGet, cid) \<in> set (requests w)" using req by (rule map_of_SomeD)
  have dr: "distinct (map fst (requests w))" using t unfolding tracked_def by simp
  have iff: "map_of (loadingPromises (mgr w)) i = Some q \<longleftrightarrow> (q, ByGet, i) \<in> set (requests w)" for i q
    using t unfolding tracked_def by blast
  have uniq: "r = (p, ByGet, cid)" if "r \<in> set (requests w)" "fst r = p" for r
    using dr mem that by (metis eq_key_imp_eq_value prod.collapse)
  let ?m1 = "case result of Some c \<Rightarrow> set_cache cfg now cid c (mgr w) | None \<Rightarrow> mgr w"
  have lp: "loadingPromises ?m1 = loadingPromises (mgr w)" by (simp split: option.splits)
  have w': "get_resume cfg now p cid result w
        = w\<lparr>mgr := ?m1\<lparr>loadingPromises := AList.delete cid (loadingPromises (mgr w))\<rparr>,
             requests := filter (\<lambda>r. fst r \<noteq> p) (requests w)\<rparr>"
    by (simp add: get_resume_def Let_def lp)
  have key: "map_of (AList.delete cid (loadingPromises (mgr w))) i = Some q
              \<longleftrightarrow> (q, ByGet, i) \<in> set (requests w) \<and> q \<noteq> p" for i q
  proof (cases "i = cid")
    case True
    have "(q, ByGet, cid) \<in> set (requests w) \<Longrightarrow> q = p"
      using iff [of cid q] iff [of cid p] mem by simp
    then show ?thesis using True by (auto simp: delete_conv')
  next
    case False
    have "q \<noteq> p" if "(q, ByGet, i) \<in> set (requests w)"
      using uniq [OF that] False by auto
    then show ?thesis using False iff [of i q] by (auto simp: delete_conv')
  qed
  show ?thesis
    unfolding w' tracked_def
    using t key unfolding tracked_def
    by (simp add: distinct_delete distinct_map_filter)
qed

lemma tracked_preload_resume:
  assumes t: "tracked w" and req: "map_of (requests w) p = Some (ByPreload, cid)"
  shows "tracked (preload_resume cfg now p cid result w)"
proof -
  have mem: "(p, ByPreload, cid) \<in> set (requests w)" using req by (rule map_of_SomeD)
  have dr: "distinct (map fst (requests w))" using t unfolding tracked_def by simp
  have uniq: "r = (p, ByPreload, cid)" if "r \<in> set (requests w)" "fst r = p" for r
    using dr mem that by (metis eq_key_imp_eq_value prod.collapse)
  have "q \<noteq> p" if "(q, ByGet, i) \<in> set (requests w)" for q i
    using uniq [OF that] by auto
  then show ?thesis
    using t unfolding tracked_def preload_resume_def
    by (auto simp: distinct_map_filter)
qed

lemma tracked_preloadContent:
  assumes t: "tracked w"
  shows "tracked (preloadContent cfg cids w)"
proof -
  have a: "tracked (w\<lparr>mgr := m'\<rparr>)" if "loadingPromises m' = loadingPromises (mgr w)" for m'
    using t that by (rule tracked_mgr_irrelevant)
  have b: "tracked (w'\<lparr>batch := b\<rparr>)" if "tracked w'" for w' :: "'a world" and b
    using that by (simp add: tracked_def)
  have c: "tracked (processPreloadQueue_begin cfg w')" if "tracked w'" for w' :: "'a world"
    unfolding processPreloadQueue_begin_def Let_def
    using that
    by (auto intro!: tracked_add_preload b tracked_mgr_irrelevant)
  show ?thesis
    unfolding preloadContent_def Let_def
    by (auto intro!: c a)
qed

lemma tracked_step:
  assumes "tracked w" "step cfg e w = Some w'"
  shows "tracked w'"
proof (cases e)
  case (Get cid now)
  then show ?thesis using assms tracked_get [of w now cid] by (auto simp: step_def)
next
  case (Preload cids)
  then show ?thesis using assms tracked_preloadContent [of w cfg cids] by (auto simp: step_def)
next
  case (Settled p result now)
  then show ?thesis
    using assms tracked_get_resume [of w p _ cfg now result]
          tracked_preload_resume [of w p _ cfg now result]
    by (auto simp: step_def split: option.splits origin.splits)
next
  case NextRound
  then show ?thesis using assms tracked_add_preload [of w "batch w"]
    by (auto simp: step_def split: if_splits)
qed

lemma tracked_run:
  "tracked w \<Longrightarrow> run cfg es w = Some w' \<Longrightarrow> tracked w'"
proof (induction es arbitrary: w)
  case Nil
  then show ?case by simp
next
  case (Cons e es)
  then show ?case by (auto split: option.splits dest: tracked_step)
qed

lemma tracked_new_world: "tracked (new_world t0)"
  by (simp add: tracked_def new_world_def new_manager_def)

section \<open>Claims on the cache\<close>

text \<open>
  Claim C6: after any sequence of \<open>set\<close> calls on a manager whose cache is a map (no
  key twice), once \<open>cleanup\<close> has run the cache holds at most \<open>maxSize\<close> entries: it
  keeps \<open>min (size, maxSize)\<close> of the entries it had, and every entry it removed was
  accessed no later than every entry it kept. Each \<open>set\<close> call itself leaves at most
  \<open>maxSize\<close> entries.
\<close>

theorem cleanup_evicts_lru:
  assumes "distinct (map fst (cache m))"
  shows "length (cache (cleanup cfg now (set_all cfg calls m))) \<le> maxSize cfg
       \<and> length (cache (cleanup cfg now (set_all cfg calls m)))
           = min (length (cache (set_all cfg calls m))) (maxSize cfg)
       \<and> set (cache (cleanup cfg now (set_all cfg calls m))) \<subseteq> set (cache (set_all cfg calls m))
       \<and> (\<forall>r\<in>set (cache (set_all cfg calls m)) - set (cache (cleanup cfg now (set_all cfg calls m))).
            \<forall>k\<in>set (cache (cleanup cfg now (set_all cfg calls m))).
              lastAccessed (snd r) \<le> lastAccessed (snd k))
       \<and> (calls \<noteq> [] \<longrightarrow> length (cache (set_all cfg calls m)) \<le> maxSize cfg)"
proof -
  let ?m = "set_all cfg calls m"
  have d: "distinct (map fst (cache ?m))" by (rule set_all_distinct [OF assms])
  have len: "length (cache (cleanup cfg now ?m)) = min (length (cache ?m)) (maxSize cfg)"
    by (rule cleanup_length [OF d])
  have sub: "set (cache (cleanup cfg now ?m)) \<subseteq> set (cache ?m)"
    unfolding cleanup_cache by auto
  have lru: "\<forall>r\<in>set (cache ?m) - set (cache (cleanup cfg now ?m)).
            \<forall>k\<in>set (cache (cleanup cfg now ?m)). lastAccessed (snd r) \<le> lastAccessed (snd k)"
    using cleanup_lru_order [OF d] by blast
  have "calls \<noteq> [] \<longrightarrow> length (cache ?m) \<le> maxSize cfg"
    using set_all_bounded [OF assms] by blast
  then show ?thesis using len sub lru by simp
qed

lemma three_entries_cleanup:
  "map fst (cache (cleanup small_cache 3 three_entries)) = [''a'', ''c'']"
  by (simp add: cleanup_def three_entries_def small_cache_def Let_def)

text \<open>
  Claim C6 at a cache of three entries with room for two: the entry accessed first goes.
\<close>

theorem cleanup_evicts_lru_witness:
  "distinct (map fst (cache three_entries))
   \<and> length (cache (cleanup small_cache 3 (set_all small_cache [] three_entries))) \<le> 2
   \<and> map fst (cache (cleanup small_cache 3 (set_all small_cache [] three_entries))) = [''a'', ''c'']
   \<and> map (\<lambda>e. lastAccessed (snd e)) (cache three_entries) = [2, 1, 3]
   \<and> map (\<lambda>e. lastAccessed (snd e))
         (cache (cleanup small_cache 3 (set_all small_cache [] three_entries))) = [2, 3]"
proof -
  have d: "distinct (map fst (cache three_entries))" by (simp add: three_entries_def)
  have s: "set_all small_cache [] three_entries = three_entries" by (simp add: set_all_def)
  note th = cleanup_evicts_lru [OF d, of small_cache 3 "[]", unfolded s]
  have "length (cache (cleanup small_cache 3 three_entries)) \<le> 2"
    using th by (simp add: small_cache_def)
  moreover have "map (\<lambda>e. lastAccessed (snd e)) (cache (cleanup small_cache 3 three_entries)) = [2, 3]"
    by (simp add: cleanup_def three_entries_def small_cache_def Let_def)
  moreover have "map (\<lambda>e. lastAccessed (snd e)) (cache three_entries) = [2, 1, 3]"
    by (simp add: three_entries_def)
  ultimately show ?thesis using d three_entries_cleanup unfolding s by simp
qed

text \<open>
  The eviction scenario: with room for two entries, insert \<open>a\<close> at time 0 and \<open>b\<close> at
  time 1, read \<open>a\<close> at time 2, insert \<open>c\<close> at time 3; \<open>b\<close> is evicted.
\<close>

lemma lru_scenario:
  "map fst (cache (set_cache small_cache 3 ''c'' ''C''
      (mgr (snd (get 2 ''a''
         \<lparr>mgr = set_all small_cache [(0, ''a'', ''A''), (1, ''b'', ''B'')] (new_manager 0),
            requests = [], issued = 0, batch = []\<rparr>))))) = [''a'', ''c'']"
  by (simp add: set_all_def set_cache_def shouldCleanup_def cleanup_def new_manager_def get_def
        small_cache_def Let_def)

lemma tracked_at_most_one:
  assumes t: "tracked w"
  shows "length (filter (\<lambda>r. fst (snd r) = ByGet \<and> snd (snd r) = cid) (requests w)) \<le> 1"
proof -
  let ?f = "filter (\<lambda>r. fst (snd r) = ByGet \<and> snd (snd r) = cid) (requests w)"
  have dr: "distinct (requests w)" using t unfolding tracked_def by (simp add: distinct_map)
  have same: "r = r'" if "r \<in> set ?f" "r' \<in> set ?f" for r r'
  proof -
    obtain p a c where r: "r = (p, a, c)" by (cases r)
    obtain q a' c' where r': "r' = (q, a', c')" by (cases r')
    have e: "a = ByGet" "c = cid" "a' = ByGet" "c' = cid"
      using that unfolding r r' by simp_all
    have "(p, ByGet, cid) \<in> set (requests w)" "(q, ByGet, cid) \<in> set (requests w)"
      using that unfolding r r' e by simp_all
    then have "map_of (loadingPromises (mgr w)) cid = Some p"
              "map_of (loadingPromises (mgr w)) cid = Some q"
      using t unfolding tracked_def by blast+
    then have "p = q" by simp
    then show ?thesis unfolding r r' e by simp
  qed
  have "distinct ?f" using dr by simp
  then have "length ?f = card (set ?f)" by (rule distinct_card [symmetric])
  also have "\<dots> \<le> 1"
  proof (cases "?f = []")
    case True
    then show ?thesis by simp
  next
    case False
    then obtain x where x: "x \<in> set ?f" by (cases ?f) auto
    have "set ?f \<subseteq> {x}" using same [OF _ x] by blast
    then have "card (set ?f) \<le> card {x}" by (intro card_mono) simp_all
    then show ?thesis by simp
  qed
  finally show ?thesis .
qed

text \<open>
  Claim C7, as stated, fails: after \<open>preloadContent('x')\<close> the preload loop has a fetch
  for \<open>x\<close> in flight; a \<open>get('x')\<close> issued then finds nothing in \<open>loadingPromises\<close>,
  starts a second fetch for \<open>x\<close> and returns the new promise.
\<close>

theorem get_duplicates_preload_counterexample:
  "run default_cache [Preload [''x'']] (new_world 0) = Some preloading
   \<and> requests preloading = [(0, ByPreload, ''x'')]
   \<and> fst (get 1 ''x'' preloading) = InFlight 1
   \<and> requests (snd (get 1 ''x'' preloading)) = [(0, ByPreload, ''x''), (1, ByGet, ''x'')]"
  by (simp add: step_def preloadContent_def processPreloadQueue_begin_def getBatch_def
        start_round_def fetchContent_def new_world_def new_manager_def default_cache_def
        preloading_def get_def Let_def)

text \<open>
  Claim C7 (amended): in every world reached from a new manager by \<open>get\<close> calls,
  \<open>preloadContent\<close> calls, settlements of fetches and passes of the preload loop, at most
  one fetch issued by \<open>get\<close> is in flight for each identifier; a \<open>get(id)\<close> issued while
  such a fetch is in flight returns its promise and changes nothing; and two \<open>get(id)\<close>
  calls in a row for an identifier neither cached nor being fetched by \<open>get\<close> return the
  same promise and issue exactly one fetch.
\<close>

theorem get_deduplicates:
  assumes "run cfg es (new_world t0) = Some w"
  shows "(\<forall>cid. length (filter (\<lambda>r. fst (snd r) = ByGet \<and> snd (snd r) = cid) (requests w)) \<le> 1)
       \<and> (\<forall>p cid now. (p, ByGet, cid) \<in> set (requests w) \<longrightarrow> get now cid w = (InFlight p, w))
       \<and> (\<forall>cid t1 t2. map_of (cache (mgr w)) cid = None
                      \<and> (\<forall>p. (p, ByGet, cid) \<notin> set (requests w)) \<longrightarrow>
             fst (get t1 cid w) = InFlight (issued w)
           \<and> fst (get t2 cid (snd (get t1 cid w))) = InFlight (issued w)
           \<and> requests (snd (get t2 cid (snd (get t1 cid w))))
               = requests w @ [(issued w, ByGet, cid)])"
proof -
  have t: "tracked w" by (rule tracked_run [OF tracked_new_world assms])
  have iff: "map_of (loadingPromises (mgr w)) i = Some q \<longleftrightarrow> (q, ByGet, i) \<in> set (requests w)" for i q
    using t unfolding tracked_def by blast
  have one: "\<forall>cid. length (filter (\<lambda>r. fst (snd r) = ByGet \<and> snd (snd r) = cid) (requests w)) \<le> 1"
    using tracked_at_most_one [OF t] by blast
  have two: "\<forall>p cid now. (p, ByGet, cid) \<in> set (requests w) \<longrightarrow> get now cid w = (InFlight p, w)"
    using iff get_in_flight by blast
  have three: "fst (get t1 cid w) = InFlight (issued w)
           \<and> fst (get t2 cid (snd (get t1 cid w))) = InFlight (issued w)
           \<and> requests (snd (get t2 cid (snd (get t1 cid w))))
               = requests w @ [(issued w, ByGet, cid)]"
    if c: "map_of (cache (mgr w)) cid = None" and n: "\<forall>p. (p, ByGet, cid) \<notin> set (requests w)"
    for cid t1 t2
  proof -
    have lp: "map_of (loadingPromises (mgr w)) cid = None"
      using iff [of cid] n by (cases "map_of (loadingPromises (mgr w)) cid") auto
    note g1 = get_miss [OF lp c, of t1]
    let ?w1 = "snd (get t1 cid w)"
    have "map_of (loadingPromises (mgr ?w1)) cid = Some (issued w)"
      unfolding g1 by (simp add: update_conv')
    from get_in_flight [OF this, of t2] show ?thesis
      unfolding g1 by simp
  qed
  show ?thesis using one two three by blast
qed

lemma run_snoc:
  "run cfg (es @ [e]) w = (case run cfg es w of None \<Rightarrow> None | Some w' \<Rightarrow> step cfg e w')"
  by (induction es arbitrary: w) (auto split: option.splits)

lemma run_preloading: "run default_cache [Preload [''x'']] (new_world 0) = Some preloading"
  by (simp add: step_def preloadContent_def processPreloadQueue_begin_def getBatch_def
        start_round_def fetchContent_def new_world_def new_manager_def default_cache_def
        preloading_def Let_def)

lemma run_getting: "run default_cache [Preload [''x''], Get ''x'' 1] (new_world 0) = Some getting"
proof -
  have "step default_cache (Get ''x'' 1) preloading = Some getting"
    by (simp add: step_def get_def fetchContent_def preloading_def getting_def Let_def)
  then show ?thesis
    using run_snoc [of default_cache "[Preload [''x'']]" "Get ''x'' 1" "new_world 0"]
    unfolding run_preloading by simp
qed

text \<open>
  The amended claim C7 in the run \<open>preloadContent('x')\<close>, \<open>get('x')\<close>: the next
  \<open>get('x')\<close> returns the promise of the fetch that the first \<open>get\<close> issued.
\<close>

theorem get_deduplicates_witness:
  "run default_cache [Preload [''x''], Get ''x'' 1] (new_world 0) = Some getting
   \<and> (1, ByGet, ''x'') \<in> set (requests getting)
   \<and> get 2 ''x'' getting = (InFlight 1, getting)"
proof -
  have m: "(1, ByGet, ''x'') \<in> set (requests getting)" by (simp add: getting_def)
  note inflight = get_deduplicates [OF run_getting, THEN conjunct2, THEN conjunct1, rule_format]
  have "get 2 ''x'' getting = (InFlight 1, getting)" by (rule inflight [OF m])
  then show ?thesis using m run_getting by simp
qed

lemma run_raced:
  "run default_cache [Preload [''x''], Get ''x'' 1, Settled 0 (Some ''X'') 2] (new_world 0) = Some raced"
proof -
  have "step default_cache (Settled 0 (Some ''X'') 2) getting = Some raced"
    by (simp add: step_def preload_resume_def settle_member_def set_cache_def shouldCleanup_def
          getting_def raced_def default_cache_def Let_def)
  then show ?thesis
    using run_snoc [of default_cache "[Preload [''x''], Get ''x'' 1]" "Settled 0 (Some ''X'') 2" "new_world 0"]
    unfolding run_getting by simp
qed

text \<open>
  Claim C10, as stated, fails: \<open>x\<close> is in the cache (the preload fetch stored it) while
  the fetch of an earlier \<open>get('x')\<close> is still registered in \<open>loadingPromises\<close>; the next
  \<open>get('x')\<close> returns that promise, not the stored payload, and counts no hit.
\<close>

theorem get_cached_in_flight_counterexample:
  "run default_cache [Preload [''x''], Get ''x'' 1, Settled 0 (Some ''X'') 2] (new_world 0) = Some raced
   \<and> map_of (cache (mgr raced)) ''x''
       = Some \<lparr>content = ''X'', added = 2, lastAccessed = 2, size_bytes = 1\<rparr>
   \<and> fst (get 3 ''x'' raced) \<noteq> Cached ''X''
   \<and> get 3 ''x'' raced = (InFlight 1, raced)"
proof -
  have "get 3 ''x'' raced = (InFlight 1, raced)"
    by (simp add: get_def raced_def)
  then show ?thesis using run_raced by (simp add: raced_def)
qed

text \<open>
  Claim C10 (amended): for an identifier present in the cache and with no fetch registered
  in \<open>loadingPromises\<close>, \<open>get\<close> returns the stored payload and changes only the
  \<open>lastAccessed\<close> time of that entry and the hit counter: the keys of the cache and their
  order, every other entry, the fetches in flight, the miss counter, the registered promises
  and the preload queue stay as they were.
\<close>

theorem get_cached_frame:
  assumes "map_of (cache (mgr w)) cid = Some e"
      and "map_of (loadingPromises (mgr w)) cid = None"
  shows "fst (get now cid w) = Cached (content e)
       \<and> snd (get now cid w)
           = w\<lparr>mgr := (mgr w)\<lparr>hits := hits (mgr w) + 1,
                  cache := AList.update cid (e\<lparr>lastAccessed := now\<rparr>) (cache (mgr w))\<rparr>\<rparr>
       \<and> map fst (cache (mgr (snd (get now cid w)))) = map fst (cache (mgr w))
       \<and> map_of (cache (mgr (snd (get now cid w)))) cid = Some (e\<lparr>lastAccessed := now\<rparr>)
       \<and> (\<forall>j. j \<noteq> cid \<longrightarrow>
             map_of (cache (mgr (snd (get now cid w)))) j = map_of (cache (mgr w)) j)
       \<and> requests (snd (get now cid w)) = requests w
       \<and> issued (snd (get now cid w)) = issued w
       \<and> hits (mgr (snd (get now cid w))) = hits (mgr w) + 1
       \<and> misses (mgr (snd (get now cid w))) = misses (mgr w)
       \<and> loadingPromises (mgr (snd (get now cid w))) = loadingPromises (mgr w)
       \<and> preloadQueue (mgr (snd (get now cid w))) = preloadQueue (mgr w)"
proof -
  have mem: "cid \<in> fst ` set (cache (mgr w))"
    using assms(1) by (metis map_of_eq_None_iff option.distinct(1))
  have keys: "map fst (AList.update cid (e\<lparr>lastAccessed := now\<rparr>) (cache (mgr w)))
                = map fst (cache (mgr w))"
    using mem by (simp add: update_keys)
  show ?thesis
    unfolding get_hit [OF assms(2) assms(1)]
    using keys by (simp add: update_conv')
qed

text \<open>
  The amended claim C10 at a cache holding \<open>x\<close> with no fetch registered.
\<close>

theorem get_cached_frame_witness:
  "map_of (cache (mgr (raced\<lparr>mgr := (mgr raced)\<lparr>loadingPromises := []\<rparr>\<rparr>))) ''x''
     = Some \<lparr>content = ''X'', added = 2, lastAccessed = 2, size_bytes = 1\<rparr>
   \<and> map_of (loadingPromises (mgr (raced\<lparr>mgr := (mgr raced)\<lparr>loadingPromises := []\<rparr>\<rparr>))) ''x'' = None
   \<and> get 3 ''x'' (raced\<lparr>mgr := (mgr raced)\<lparr>loadingPromises := []\<rparr>\<rparr>)
       = (Cached ''X'',
          raced\<lparr>mgr := (mgr raced)\<lparr>loadingPromises := [], hits := 1,
             cache := [(''x'', \<lparr>content = ''X'', added = 2, lastAccessed = 3, size_bytes = 1\<rparr>)]\<rparr>\<rparr>)"
proof -
  let ?w = "raced\<lparr>mgr := (mgr raced)\<lparr>loadingPromises := []\<rparr>\<rparr>"
  let ?e = "\<lparr>content = ''X'', added = 2, lastAccessed = 2, size_bytes = 1\<rparr> :: string entry"
  have c: "map_of (cache (mgr ?w)) ''x'' = Some ?e" by (simp add: raced_def)
  have l: "map_of (loadingPromises (mgr ?w)) ''x'' = None" by simp
  note th = get_cached_frame [OF c l, of 3]
  have "fst (get 3 ''x'' ?w) = Cached ''X''" using th by simp
  moreover have "snd (get 3 ''x'' ?w) = raced\<lparr>mgr := (mgr raced)\<lparr>loadingPromises := [], hits := 1,
             cache := [(''x'', \<lparr>content = ''X'', added = 2, lastAccessed = 3, size_bytes = 1\<rparr>)]\<rparr>\<rparr>"
    using th by (simp add: raced_def)
  ultimately show ?thesis using c l by (simp add: prod_eq_iff)
qed

section \<open>The preload loop\<close>

lemma drain_loop_returns_only_empty:
  assumes "drain_loop cfg net clock b k m = Some m'"
  shows "b = []"
proof (rule drain_loop.raw_induct [where P = "\<lambda>cfg net clock b k m y. b = []", OF _ assms])
  fix f :: "'a cache_config \<Rightarrow> (nat \<Rightarrow> content_id \<Rightarrow> 'a option) \<Rightarrow> (nat \<Rightarrow> int) \<Rightarrow> content_id list
              \<Rightarrow> nat \<Rightarrow> 'a cache_manager \<Rightarrow> 'a cache_manager option"
    and cfg net clock and b :: "content_id list" and k m y
  assume ih: "\<And>cfg net clock b k m y. f cfg net clock b k m = Some y \<Longrightarrow> b = []"
    and body: "(if b \<noteq> []
                then f cfg net clock b (Suc k)
                       (fold (\<lambda>cid. settle_member cfg (clock k) (net k cid) cid) b m)
                else Some m) = Some y"
  show "b = []"
  proof (rule ccontr)
    assume ne: "b \<noteq> []"
    then have "f cfg net clock b (Suc k)
                 (fold (\<lambda>cid. settle_member cfg (clock k) (net k cid) cid) b m) = Some y"
      using body by simp
    then have "b = []" by (rule ih)
    then show False using ne by simp
  qed
qed

lemma drain_loop_diverges: "b \<noteq> [] \<Longrightarrow> drain_loop cfg net clock b k m = None"
  using drain_loop_returns_only_empty [of cfg net clock b k m]
  by (cases "drain_loop cfg net clock b k m") auto

lemma processPreloadQueue_diverges:
  assumes "\<not> isLoading m" "preloadQueue m \<noteq> []" "0 < batchSize cfg"
  shows "processPreloadQueue cfg net clock m = None"
proof -
  have "getBatch cfg (m\<lparr>isLoading := True\<rparr>) \<noteq> []"
    using assms by (simp add: getBatch_def)
  then show ?thesis
    using assms by (simp add: processPreloadQueue_def Let_def drain_loop_diverges)
qed

text \<open>The first pass empties the queue; the loop does not look at the queue again.\<close>

lemma first_pass_empties_queue:
  "preloadQueue (fold (\<lambda>cid. settle_member default_cache 1 (Some ''X'') cid) [''x'']
      ((new_manager 0 :: string cache_manager)\<lparr>preloadQueue := [''x''], isLoading := True\<rparr>)) = []"
  by (simp add: settle_member_def set_cache_def shouldCleanup_def new_manager_def default_cache_def Let_def)

lemma run_refetching:
  "run default_cache [Preload [''x''], Settled 0 (Some ''X'') 1, NextRound] (new_world 0)
     = Some refetching"
proof -
  let ?w = "\<lparr>mgr = \<lparr>cache = [(''x'', \<lparr>content = ''X'', added = 1, lastAccessed = 1, size_bytes = 1\<rparr>)],
       preloadQueue = [], hits = 0, misses = 0,
       stats_size = 1, lastCleanup = 0, isLoading = True, loadingPromises = []\<rparr>,
     requests = [], issued = 1, batch = [''x'']\<rparr> :: string world"
  have s1: "step default_cache (Settled 0 (Some ''X'') 1) preloading = Some ?w"
    by (simp add: step_def preload_resume_def settle_member_def set_cache_def shouldCleanup_def
          preloading_def default_cache_def Let_def)
  have s2: "step default_cache NextRound ?w = Some refetching"
    by (simp add: step_def start_round_def fetchContent_def refetching_def)
  have "run default_cache ([Preload [''x'']] @ [Settled 0 (Some ''X'') 1]) (new_world 0) = Some ?w"
    unfolding run_snoc run_preloading using s1 by simp
  then have "run default_cache (([Preload [''x'']] @ [Settled 0 (Some ''X'') 1]) @ [NextRound]) (new_world 0)
               = Some refetching"
    unfolding run_snoc [of _ "[Preload [''x'']] @ [Settled 0 (Some ''X'') 1]"] using s2 by simp
  then show ?thesis by simp
qed

text \<open>
  Claim C8 at a queue holding the one identifier \<open>x\<close>: the batch \<open>[x]\<close> is taken once,
  before the loop, and the loop condition \<open>batch.size > 0\<close> never changes, so
  \<open>processPreloadQueue\<close> does not return, whatever the network answers. In the run, after
  the fetch of \<open>x\<close> has settled and the queue is empty, the next pass fetches \<open>x\<close> again
  and \<open>isLoading\<close> stays set.
\<close>

theorem processPreloadQueue_never_completes:
  "getBatch default_cache ((new_manager 0)\<lparr>preloadQueue := [''x'']\<rparr>) = [''x'']
   \<and> processPreloadQueue default_cache (\<lambda>k cid. Some ''X'') (\<lambda>k. int k)
        ((new_manager 0)\<lparr>preloadQueue := [''x'']\<rparr>) = None
   \<and> run default_cache [Preload [''x''], Settled 0 (Some ''X'') 1, NextRound] (new_world 0)
       = Some refetching
   \<and> preloadQueue (mgr refetching) = [] \<and> isLoading (mgr refetching)
   \<and> requests refetching = [(1, ByPreload, ''x'')]"
proof -
  have "processPreloadQueue default_cache (\<lambda>k cid. Some ''X'') (\<lambda>k. int k)
        ((new_manager 0)\<lparr>preloadQueue := [''x'']\<rparr>) = None"
    by (rule processPreloadQueue_diverges) (simp_all add: new_manager_def default_cache_def)
  then show ?thesis
    using run_refetching
    by (simp add: getBatch_def new_manager_def default_cache_def refetching_def)
qed

end
